theory Spec2Isabelle
  imports Main "HOL-Library.Char_ord" "HOL-Library.List_Lexorder"
begin

section \<open>The dependency-graph cycle detector (circular\_deps.py)\<close>

text \<open>
  The script builds a file-level import graph and looks for cycles in it by a depth-first
  search. This theory embeds its functions one by one: \<open>extract_imports\<close>,
  \<open>resolve_import\<close>, \<open>build_dependency_graph\<close>, \<open>find_cycles\<close> and the
  deduplication loop of \<open>main\<close>.

  Modelling decisions, shared by all sections:
  \<^item> the cycle finder never looks inside a node, so it is polymorphic in the node type;
    the functions that read the project take the file system as an argument, a record of
    the \<open>pathlib\<close> operations they call;
  \<^item> a \<open>dict[Path, set[Path]]\<close> is an association list: the keys in insertion order
    (the order \<open>for node in graph\<close> follows), each with the elements of its set in the
    order the \<open>for\<close> loop over the set enumerates them. Python does not specify that
    order, so every theorem below holds for all enumerations;
  \<^item> an exception is a value \<open>Inl e\<close> of the result type \<open>py_error + 'a\<close>;
  \<^item> the interpreter's recursion limit is not modelled: recursion depth is unbounded.
\<close>

subsection \<open>Errors and list primitives\<close>

datatype py_error = ValueError | IndexError | KeyError | OSError

text \<open>\<open>xs.index(x)\<close>: the first position of \<open>x\<close>, ValueError when there is none.\<close>

fun index_of :: "'a list \<Rightarrow> 'a \<Rightarrow> py_error + nat" where
  "index_of [] x = Inl ValueError"
| "index_of (y # ys) x =
     (if y = x then Inr 0
      else (case index_of ys x of Inl e \<Rightarrow> Inl e | Inr i \<Rightarrow> Inr (Suc i)))"

subsection \<open>The graph\<close>

type_synonym 'a graph = "('a \<times> 'a list) list"

text \<open>\<open>graph.get(node, set())\<close>\<close>

definition graph_get :: "'a graph \<Rightarrow> 'a \<Rightarrow> 'a list" where
  "graph_get g node = (case map_of g node of None \<Rightarrow> [] | Some ns \<Rightarrow> ns)"

text \<open>The keys, in the order \<open>for node in graph\<close> visits them.\<close>

definition graph_keys :: "'a graph \<Rightarrow> 'a list" where
  "graph_keys g = map fst g"

text \<open>The edge relation the dictionary stands for.\<close>

definition edges :: "'a graph \<Rightarrow> ('a \<times> 'a) set" where
  "edges g = {(a, b). b \<in> set (graph_get g a)}"

text \<open>Every node the graph mentions, as a key or as a target.\<close>

definition graph_nodes :: "'a graph \<Rightarrow> 'a set" where
  "graph_nodes g = set (graph_keys g) \<union> (\<Union>k \<in> set (graph_keys g). set (graph_get g k))"

subsection \<open>find\_cycles\<close>

text \<open>
  The four variables that the nested function \<open>dfs\<close> shares with \<open>find_cycles\<close>.
\<close>

record 'a dfs_state =
  cycles :: "'a list list"
  visited :: "'a set"
  rec_stack :: "'a set"
  path :: "'a list"

definition init_state :: "'a dfs_state" where
  "init_state = \<lparr>cycles = [], visited = {}, rec_stack = {}, path = []\<rparr>"

text \<open>The three statements at the head of \<open>dfs\<close>.\<close>

definition enter :: "'a \<Rightarrow> 'a dfs_state \<Rightarrow> 'a dfs_state" where
  "enter node st =
     st\<lparr>visited := insert node (visited st),
        rec_stack := insert node (rec_stack st),
        path := path st @ [node]\<rparr>"

text \<open>
  The two statements at its end: \<open>path.pop()\<close> raises IndexError on an empty list and
  \<open>rec_stack.remove(node)\<close> raises KeyError when the node is not in the set.
\<close>

definition leave :: "'a \<Rightarrow> 'a dfs_state \<Rightarrow> py_error + 'a dfs_state" where
  "leave node st =
     (if path st = [] then Inl IndexError
      else if node \<notin> rec_stack st then Inl KeyError
      else Inr (st\<lparr>path := butlast (path st), rec_stack := rec_stack st - {node}\<rparr>))"

text \<open>The body of the branch \<open>elif neighbor in rec_stack\<close>.\<close>

definition record_cycle :: "'a \<Rightarrow> 'a dfs_state \<Rightarrow> py_error + 'a dfs_state" where
  "record_cycle neighbor st =
     (case index_of (path st) neighbor of
        Inl e \<Rightarrow> Inl e
      | Inr cycle_start \<Rightarrow>
          Inr (st\<lparr>cycles := cycles st @ [drop cycle_start (path st) @ [neighbor]]\<rparr>))"

text \<open>
  \<open>dfs\<close> is the nested function; \<open>dfs_for\<close> is its \<open>for neighbor in \<dots>\<close> loop, run on
  the neighbours that are still to come.
\<close>

function (domintros)
  dfs :: "'a graph \<Rightarrow> 'a \<Rightarrow> 'a dfs_state \<Rightarrow> py_error + 'a dfs_state" and
  dfs_for :: "'a graph \<Rightarrow> 'a \<Rightarrow> 'a list \<Rightarrow> 'a dfs_state \<Rightarrow> py_error + 'a dfs_state"
where
  "dfs g node st =
     (case dfs_for g node (graph_get g node) (enter node st) of
        Inl e \<Rightarrow> Inl e
      | Inr st' \<Rightarrow> leave node st')"
| "dfs_for g node [] st = Inr st"
| "dfs_for g node (neighbor # rest) st =
     (if neighbor \<notin> visited st then
        (case dfs g neighbor st of
           Inl e \<Rightarrow> Inl e
         | Inr st' \<Rightarrow> dfs_for g node rest st')
      else if neighbor \<in> rec_stack st then
        (case record_cycle neighbor st of
           Inl e \<Rightarrow> Inl e
         | Inr st' \<Rightarrow> dfs_for g node rest st')
      else dfs_for g node rest st)"
  by pat_completeness auto

text \<open>
  Termination. The nested call \<open>dfs_for g node rest (dfs g neighbor st)\<close> receives the
  state that the inner call returns, so the measure needs a fact about results first:
  \<open>dfs\<close> never removes a node from \<open>visited\<close>.
\<close>

lemma leave_visited: "leave node st = Inr st' \<Longrightarrow> visited st' = visited st"
  by (auto simp: leave_def split: if_splits)

lemma record_cycle_visited: "record_cycle n st = Inr st' \<Longrightarrow> visited st' = visited st"
  by (auto simp: record_cycle_def split: sum.splits)

lemma dfs_visited_mono_dom:
  "dfs_dfs_for_dom (Inl (g, node, st)) \<Longrightarrow> dfs g node st = Inr st' \<Longrightarrow>
     visited st \<subseteq> visited st'"
  "dfs_dfs_for_dom (Inr (g, node', ns, st2)) \<Longrightarrow> dfs_for g node' ns st2 = Inr st2' \<Longrightarrow>
     visited st2 \<subseteq> visited st2'"
proof (induction g node st and g node' ns st2 arbitrary: st' and st2'
    rule: dfs_dfs_for.pinduct)
  case (1 g node st)
  then show ?case
    by (auto simp: dfs.psimps enter_def split: sum.splits dest!: leave_visited)
next
  case (2 g node st)
  then show ?case by (simp add: dfs_for.psimps)
next
  case (3 g node neighbor rest st)
  then show ?case
    apply (simp add: dfs_for.psimps split: if_splits sum.splits)
      apply (blast dest: record_cycle_visited)+
    done
qed

lemma graph_get_nodes: "set (graph_get g node) \<subseteq> graph_nodes g"
proof (cases "map_of g node")
  case None
  then show ?thesis by (simp add: graph_get_def)
next
  case (Some ns)
  then have "(node, ns) \<in> set g" by (rule map_of_SomeD)
  then have "node \<in> set (graph_keys g)" by (force simp: graph_keys_def)
  then show ?thesis by (auto simp: graph_nodes_def)
qed

lemma finite_graph_nodes: "finite (graph_nodes g)"
  by (simp add: graph_nodes_def)

text \<open>
  The number of nodes of the graph (and of the pending list) not yet in \<open>visited\<close>: the
  quantity that every call of \<open>dfs\<close> on a new node decreases.
\<close>

definition unvisited :: "'a graph \<Rightarrow> 'a list \<Rightarrow> 'a set \<Rightarrow> nat" where
  "unvisited g ns v = card ((graph_nodes g \<union> set ns) - v)"

lemma unvisited_mono:
  "set ns \<subseteq> graph_nodes g \<union> set ms \<Longrightarrow> v \<subseteq> w \<Longrightarrow> unvisited g ns w \<le> unvisited g ms v"
  unfolding unvisited_def
  by (rule card_mono) (auto simp: finite_graph_nodes)

lemma unvisited_less:
  "n \<notin> v \<Longrightarrow> unvisited g [n] (insert n v) < unvisited g (n # rest) v"
  unfolding unvisited_def
  by (rule psubset_card_mono) (auto simp: finite_graph_nodes)

termination dfs
proof (relation "inv_image (less_than <*lex*> less_than <*lex*> less_than)
    (\<lambda>x. case x of
       Inl (g, node, st) \<Rightarrow> (unvisited g [node] (insert node (visited st)), 1::nat, 0::nat)
     | Inr (g, node, ns, st) \<Rightarrow> (unvisited g ns (visited st), 0, length ns))", goal_cases)
  case 1
  then show ?case by (intro wf_inv_image wf_lex_prod wf_less_than)
next
  case (2 g node st)
  have "unvisited g (graph_get g node) (visited (enter node st))
      \<le> unvisited g [node] (insert node (visited st))"
    using graph_get_nodes[of g node] by (intro unvisited_mono) (auto simp: enter_def)
  then show ?case by auto
next
  case (3 g node neighbor rest st)
  then show ?case using unvisited_less[of neighbor "visited st" g rest] by simp
next
  case (4 g node neighbor rest st st')
  then have "visited st \<subseteq> visited st'" by (auto dest: dfs_visited_mono_dom(1))
  then have "unvisited g rest (visited st') \<le> unvisited g (neighbor # rest) (visited st)"
    by (intro unvisited_mono) auto
  then show ?case by auto
next
  case (5 g node neighbor rest st st')
  then have "visited st' = visited st" by (auto dest: record_cycle_visited)
  then have "unvisited g rest (visited st') \<le> unvisited g (neighbor # rest) (visited st)"
    by (intro unvisited_mono) auto
  then show ?case by auto
next
  case (6 g node neighbor rest st)
  have "unvisited g rest (visited st) \<le> unvisited g (neighbor # rest) (visited st)"
    by (intro unvisited_mono) auto
  then show ?case by auto
qed

text \<open>
  The equation of \<open>dfs\<close> rewrites a call of \<open>dfs\<close> on any arguments, so it is taken out of
  the simplifier's default set and named where a proof unfolds a call.
\<close>

declare dfs.simps [simp del]

text \<open>
  The outer loop \<open>for node in graph: if node not in visited: dfs(node)\<close>, and the
  function itself.
\<close>

fun find_cycles_loop :: "'a graph \<Rightarrow> 'a list \<Rightarrow> 'a dfs_state \<Rightarrow> py_error + 'a dfs_state" where
  "find_cycles_loop g [] st = Inr st"
| "find_cycles_loop g (node # rest) st =
     (if node \<notin> visited st then
        (case dfs g node st of
           Inl e \<Rightarrow> Inl e
         | Inr st' \<Rightarrow> find_cycles_loop g rest st')
      else find_cycles_loop g rest st)"

definition find_cycles :: "'a graph \<Rightarrow> py_error + 'a list list" where
  "find_cycles g =
     (case find_cycles_loop g (graph_keys g) init_state of
        Inl e \<Rightarrow> Inl e
      | Inr st \<Rightarrow> Inr (cycles st))"

subsection \<open>What the search maintains\<close>

text \<open>
  \<open>is_chain g xs\<close>: every element of \<open>xs\<close> but the first is a neighbour (in \<open>g\<close>) of the
  one before it. A cycle as the script reports it is elementary when it has the shape
  \<open>[n0, n1, \<dots>, nk, n0]\<close>: at least two entries, the last equal to the first, no node
  twice before the closing one, and an edge from each entry to the next.
\<close>

fun is_chain :: "'a graph \<Rightarrow> 'a list \<Rightarrow> bool" where
  "is_chain g [] = True"
| "is_chain g [x] = True"
| "is_chain g (x # y # zs) = (y \<in> set (graph_get g x) \<and> is_chain g (y # zs))"

definition elementary_cycle :: "'a graph \<Rightarrow> 'a list \<Rightarrow> bool" where
  "elementary_cycle g c =
     (2 \<le> length c \<and> hd c = last c \<and> distinct (butlast c) \<and> is_chain g c)"

text \<open>
  The invariant of the shared variables: \<open>path\<close> has no duplicates, \<open>rec_stack\<close> is the
  set of its elements, everything on it has been visited, it follows edges of the graph,
  and every cycle recorded so far is elementary.
\<close>

definition dfs_inv :: "'a graph \<Rightarrow> 'a dfs_state \<Rightarrow> bool" where
  "dfs_inv g st =
     (distinct (path st) \<and> rec_stack st = set (path st) \<and> set (path st) \<subseteq> visited st \<and>
      visited st \<subseteq> graph_nodes g \<and>
      is_chain g (path st) \<and> list_all (elementary_cycle g) (cycles st))"

text \<open>
  What holds of a node that is done (visited and no longer on the stack): all its
  neighbours have been visited, and its self-loop, if it has one, has been recorded.
\<close>

definition done_ok :: "'a graph \<Rightarrow> 'a dfs_state \<Rightarrow> bool" where
  "done_ok g st =
     (\<forall>a. a \<in> visited st \<longrightarrow> a \<notin> rec_stack st \<longrightarrow>
        set (graph_get g a) \<subseteq> visited st \<and>
        (a \<in> set (graph_get g a) \<longrightarrow> [a, a] \<in> set (cycles st)))"

lemma index_of_mem:
  "x \<in> set xs \<Longrightarrow> \<exists>i. index_of xs x = Inr i \<and> i < length xs \<and> xs ! i = x"
  by (induction xs) auto

lemma index_of_last: "x \<notin> set p \<Longrightarrow> index_of (p @ [x]) x = Inr (length p)"
  by (induction p) auto

lemma is_chain_snoc:
  "is_chain g (xs @ [y]) = (is_chain g xs \<and> (xs = [] \<or> y \<in> set (graph_get g (last xs))))"
  by (induction g xs rule: is_chain.induct) auto

lemma is_chain_tl: "is_chain g (x # xs) \<Longrightarrow> is_chain g xs"
  by (cases xs) auto

lemma is_chain_drop: "is_chain g xs \<Longrightarrow> is_chain g (drop i xs)"
proof (induction i arbitrary: xs)
  case 0
  then show ?case by simp
next
  case (Suc i)
  then show ?case by (cases xs) (auto dest: is_chain_tl)
qed

lemma is_chain_butlast: "is_chain g xs \<Longrightarrow> is_chain g (butlast xs)"
  by (cases xs rule: rev_cases) (auto simp: is_chain_snoc)

lemma elementary_back_edge:
  assumes "distinct p" "is_chain g p" "p \<noteq> []" "n \<in> set (graph_get g (last p))"
    "i < length p" "p ! i = n"
  shows "elementary_cycle g (drop i p @ [n])"
proof -
  have ne: "drop i p \<noteq> []" using assms(5) by simp
  have "hd (drop i p) = n" using assms(5,6) by (simp add: hd_drop_conv_nth)
  moreover have "last (drop i p) = last p" using assms(5) by simp
  moreover have "is_chain g (drop i p)" using assms(2) by (rule is_chain_drop)
  ultimately show ?thesis
    using assms(1,4) ne
    by (auto simp: elementary_cycle_def is_chain_snoc Suc_le_eq)
qed


text \<open>The relation between the state before and after a call.\<close>

definition dfs_post :: "'a graph \<Rightarrow> 'a dfs_state \<Rightarrow> 'a dfs_state \<Rightarrow> bool" where
  "dfs_post g st st' =
     (dfs_inv g st' \<and> done_ok g st' \<and> path st' = path st \<and> visited st \<subseteq> visited st' \<and>
      set (cycles st) \<subseteq> set (cycles st'))"

lemma dfs_post_refl: "dfs_inv g st \<Longrightarrow> done_ok g st \<Longrightarrow> dfs_post g st st"
  by (simp add: dfs_post_def)

lemma dfs_post_trans: "dfs_post g st st1 \<Longrightarrow> dfs_post g st1 st2 \<Longrightarrow> dfs_post g st st2"
  by (auto simp: dfs_post_def)

lemma enter_ok:
  assumes "dfs_inv g st" "done_ok g st" "node \<notin> visited st" "is_chain g (path st @ [node])"
    "node \<in> graph_nodes g"
  shows "dfs_inv g (enter node st)" "done_ok g (enter node st)"
    "path (enter node st) = path st @ [node]"
  using assms by (auto simp: dfs_inv_def done_ok_def enter_def)

lemma record_cycle_ok:
  assumes inv: "dfs_inv g st" and dn: "done_ok g st" and ne: "path st \<noteq> []"
    and nb: "neighbor \<in> set (graph_get g (last (path st)))" and act: "neighbor \<in> rec_stack st"
  shows "\<exists>st'. record_cycle neighbor st = Inr st' \<and> dfs_post g st st' \<and>
           (neighbor = last (path st) \<longrightarrow> [neighbor, neighbor] \<in> set (cycles st'))"
proof -
  from inv act have mem: "neighbor \<in> set (path st)" by (simp add: dfs_inv_def)
  then obtain i where i: "index_of (path st) neighbor = Inr i" "i < length (path st)"
    "path st ! i = neighbor"
    using index_of_mem by fastforce
  let ?c = "drop i (path st) @ [neighbor]"
  let ?st' = "st\<lparr>cycles := cycles st @ [?c]\<rparr>"
  have r: "record_cycle neighbor st = Inr ?st'" using i(1) by (simp add: record_cycle_def)
  have el: "elementary_cycle g ?c"
    using inv ne nb i(2,3) by (intro elementary_back_edge) (auto simp: dfs_inv_def)
  have p: "dfs_post g st ?st'"
    using inv dn el by (auto simp: dfs_post_def dfs_inv_def done_ok_def)
  have "[neighbor, neighbor] \<in> set (cycles ?st')" if "neighbor = last (path st)"
  proof -
    define q where "q = butlast (path st)"
    have q: "path st = q @ [neighbor]" using ne that by (simp add: q_def)
    with inv have "neighbor \<notin> set q" by (auto simp: dfs_inv_def)
    then have "index_of (path st) neighbor = Inr (length q)"
      unfolding q by (rule index_of_last)
    with i(1) have "i = length q" by simp
    then show ?thesis using q by simp
  qed
  with r p show ?thesis by blast
qed

lemma leave_ok:
  assumes inv: "dfs_inv g st" and dn: "done_ok g st" and p: "path st = q @ [node]"
    and self: "node \<in> set (graph_get g node) \<longrightarrow> [node, node] \<in> set (cycles st)"
    and nbs: "set (graph_get g node) \<subseteq> visited st"
  shows "\<exists>st'. leave node st = Inr st' \<and> dfs_inv g st' \<and> done_ok g st' \<and> path st' = q \<and>
           visited st' = visited st \<and> cycles st' = cycles st"
proof -
  let ?st' = "st\<lparr>path := butlast (path st), rec_stack := rec_stack st - {node}\<rparr>"
  from inv p have rs: "rec_stack st = insert node (set q)" and nq: "node \<notin> set q"
    and dq: "distinct q" and vis: "insert node (set q) \<subseteq> visited st"
    by (auto simp: dfs_inv_def)
  have l: "leave node st = Inr ?st'" using p rs by (simp add: leave_def)
  have ch: "is_chain g q" using inv p is_chain_butlast[of g "path st"] by (simp add: dfs_inv_def)
  have inv': "dfs_inv g ?st'"
    using inv p rs nq dq vis ch by (auto simp: dfs_inv_def)
  have dn': "done_ok g ?st'"
    using dn self nbs rs by (auto simp: done_ok_def)
  show ?thesis using l inv' dn' p by simp
qed

text \<open>
  The central lemma, by computation induction: called on an unvisited node at the end of
  the current path, \<open>dfs\<close> raises nothing, restores the path and the stack, and leaves
  the invariant in place; the loop does the same for any tail of the neighbour list.
\<close>

lemma dfs_correct:
  "dfs_inv g st \<Longrightarrow> done_ok g st \<Longrightarrow> node \<notin> visited st \<Longrightarrow> is_chain g (path st @ [node]) \<Longrightarrow>
     node \<in> graph_nodes g \<Longrightarrow>
     \<exists>st'. dfs g node st = Inr st' \<and> dfs_post g st st' \<and> node \<in> visited st'"
  "dfs_inv g st2 \<Longrightarrow> done_ok g st2 \<Longrightarrow> path st2 \<noteq> [] \<Longrightarrow> last (path st2) = node' \<Longrightarrow>
     set ns \<subseteq> set (graph_get g node') \<Longrightarrow>
     \<exists>st'. dfs_for g node' ns st2 = Inr st' \<and> dfs_post g st2 st' \<and>
       set ns \<subseteq> visited st' \<and>
       (node' \<in> set ns \<longrightarrow> [node', node'] \<in> set (cycles st'))"
proof (induction g node st and g node' ns st2 rule: dfs_dfs_for.induct)
  case (1 g node st)
  let ?e = "enter node st"
  have e: "dfs_inv g ?e" "done_ok g ?e" "path ?e = path st @ [node]"
    using 1(2-6) by (rule enter_ok)+
  have "\<exists>st'. dfs_for g node (graph_get g node) ?e = Inr st' \<and> dfs_post g ?e st' \<and>
       set (graph_get g node) \<subseteq> visited st' \<and>
       (node \<in> set (graph_get g node) \<longrightarrow> [node, node] \<in> set (cycles st'))"
    using e by (intro 1(1)) auto
  then obtain st1 where st1: "dfs_for g node (graph_get g node) ?e = Inr st1"
    "dfs_post g ?e st1" "node \<in> set (graph_get g node) \<longrightarrow> [node, node] \<in> set (cycles st1)"
    "set (graph_get g node) \<subseteq> visited st1"
    by blast
  from st1(2) e(3) have p1: "path st1 = path st @ [node]" and i1: "dfs_inv g st1"
    and d1: "done_ok g st1" and v1: "visited ?e \<subseteq> visited st1"
    and c1: "set (cycles ?e) \<subseteq> set (cycles st1)"
    by (auto simp: dfs_post_def)
  from leave_ok[OF i1 d1 p1 st1(3,4)] obtain st2 where st2: "leave node st1 = Inr st2"
    "dfs_inv g st2" "done_ok g st2" "path st2 = path st" "visited st2 = visited st1"
    "cycles st2 = cycles st1"
    by blast
  have "dfs g node st = Inr st2" using st1(1) st2(1) by (simp add: dfs.simps)
  moreover have "dfs_post g st st2"
    using st2 v1 c1 by (auto simp: dfs_post_def enter_def)
  moreover have "node \<in> visited st2" using st2(5) v1 by (auto simp: enter_def)
  ultimately show ?case by blast
next
  case (2 g node st)
  then show ?case by (simp add: dfs_post_refl)
next
  case (3 g node neighbor rest st)
  note inv = 3(5) and dn = 3(6) and ne = 3(7) and lst = 3(8) and sub = 3(9)
  have nbg: "neighbor \<in> graph_nodes g" using sub graph_get_nodes[of g node] by auto
  from sub have nb: "neighbor \<in> set (graph_get g node)" and sub': "set rest \<subseteq> set (graph_get g node)"
    by auto
  have ch: "is_chain g (path st @ [neighbor])"
    using inv ne lst nb by (simp add: is_chain_snoc dfs_inv_def)
  show ?case
  proof (cases "neighbor \<notin> visited st")
    case True
    from 3(1)[OF True inv dn True ch nbg] obtain st1 where st1: "dfs g neighbor st = Inr st1"
      "dfs_post g st st1" "neighbor \<in> visited st1" by blast
    from st1(2) have i1: "dfs_inv g st1" "done_ok g st1" "path st1 = path st"
      by (auto simp: dfs_post_def)
    from 3(2)[OF True st1(1) i1(1,2)] ne lst sub' i1(3)
    obtain st2 where st2: "dfs_for g node rest st1 = Inr st2" "dfs_post g st1 st2"
      "node \<in> set rest \<longrightarrow> [node, node] \<in> set (cycles st2)" "set rest \<subseteq> visited st2"
      by auto
    have neq: "neighbor \<noteq> node"
      using True inv ne lst by (auto simp: dfs_inv_def)
    have "dfs_for g node (neighbor # rest) st = Inr st2" using True st1(1) st2(1) by simp
    moreover have "dfs_post g st st2" using st1(2) st2(2) by (rule dfs_post_trans)
    moreover have "neighbor \<in> visited st2" using st1(3) st2(2) by (auto simp: dfs_post_def)
    ultimately show ?thesis using st2(3,4) neq by auto
  next
    case False
    then have vis: "neighbor \<in> visited st" by simp
    show ?thesis
    proof (cases "neighbor \<in> rec_stack st")
      case True
      from record_cycle_ok[OF inv dn ne _ True] nb lst
      obtain st1 where st1: "record_cycle neighbor st = Inr st1" "dfs_post g st st1"
        "neighbor = node \<longrightarrow> [neighbor, neighbor] \<in> set (cycles st1)"
        by auto
      from st1(2) have i1: "dfs_inv g st1" "done_ok g st1" "path st1 = path st"
        by (auto simp: dfs_post_def)
      from 3(3)[OF False True st1(1) i1(1,2)] ne lst sub' i1(3)
      obtain st2 where st2: "dfs_for g node rest st1 = Inr st2" "dfs_post g st1 st2"
        "node \<in> set rest \<longrightarrow> [node, node] \<in> set (cycles st2)" "set rest \<subseteq> visited st2"
        by auto
      have "dfs_for g node (neighbor # rest) st = Inr st2" using vis True st1(1) st2(1) by simp
      moreover have "dfs_post g st st2" using st1(2) st2(2) by (rule dfs_post_trans)
      moreover have "[node, node] \<in> set (cycles st2)" if "neighbor = node"
        using that st1(3) st2(2) by (auto simp: dfs_post_def)
      moreover have "neighbor \<in> visited st2"
        using vis st1(2) st2(2) by (auto simp: dfs_post_def)
      ultimately show ?thesis using st2(3,4) by auto
    next
      case nact: False
      from 3(4)[OF False nact inv dn ne lst sub']
      obtain st2 where st2: "dfs_for g node rest st = Inr st2" "dfs_post g st st2"
        "node \<in> set rest \<longrightarrow> [node, node] \<in> set (cycles st2)" "set rest \<subseteq> visited st2"
        by auto
      have neq: "neighbor \<noteq> node"
        using nact inv ne lst by (auto simp: dfs_inv_def)
      have "dfs_for g node (neighbor # rest) st = Inr st2" using vis nact st2(1) by simp
      moreover have "neighbor \<in> visited st2" using vis st2(2) by (auto simp: dfs_post_def)
      ultimately show ?thesis using st2(2,3,4) neq by auto
    qed
  qed
qed

lemma init_state_ok: "dfs_inv g init_state" "done_ok g init_state" "path init_state = []"
  by (simp_all add: dfs_inv_def done_ok_def init_state_def)

lemma graph_keys_nodes: "set (graph_keys g) \<subseteq> graph_nodes g"
  by (auto simp: graph_keys_def graph_nodes_def)

lemma find_cycles_loop_correct:
  "dfs_inv g st \<Longrightarrow> done_ok g st \<Longrightarrow> path st = [] \<Longrightarrow> set ks \<subseteq> graph_nodes g \<Longrightarrow>
     \<exists>st'. find_cycles_loop g ks st = Inr st' \<and> dfs_post g st st' \<and> set ks \<subseteq> visited st'"
proof (induction ks arbitrary: st)
  case Nil
  then show ?case by (simp add: dfs_post_refl)
next
  case (Cons k ks)
  show ?case
  proof (cases "k \<in> visited st")
    case True
    from Cons.IH[OF Cons.prems(1-3)] Cons.prems(4)
    obtain st' where "find_cycles_loop g ks st = Inr st'" "dfs_post g st st'"
      "set ks \<subseteq> visited st'" by auto
    then show ?thesis using True by (auto simp: dfs_post_def)
  next
    case False
    have "\<exists>st'. dfs g k st = Inr st' \<and> dfs_post g st st' \<and> k \<in> visited st'"
      using Cons.prems False by (intro dfs_correct(1)) auto
    then obtain st1 where st1: "dfs g k st = Inr st1" "dfs_post g st st1" "k \<in> visited st1"
      by blast
    then have i1: "dfs_inv g st1" "done_ok g st1" "path st1 = []"
      using Cons.prems(3) by (auto simp: dfs_post_def)
    from Cons.IH[OF i1] Cons.prems(4)
    obtain st2 where st2: "find_cycles_loop g ks st1 = Inr st2" "dfs_post g st1 st2"
      "set ks \<subseteq> visited st2" by auto
    have "find_cycles_loop g (k # ks) st = Inr st2" using False st1(1) st2(1) by simp
    moreover have "dfs_post g st st2" using st1(2) st2(2) by (rule dfs_post_trans)
    moreover have "k \<in> visited st2" using st1(3) st2(2) by (auto simp: dfs_post_def)
    ultimately show ?thesis using st2(3) by auto
  qed
qed

text \<open>What the search has established when it returns.\<close>

lemma find_cycles_final:
  "\<exists>st. find_cycles_loop g (graph_keys g) init_state = Inr st \<and> find_cycles g = Inr (cycles st) \<and>
     dfs_inv g st \<and> done_ok g st \<and> path st = [] \<and> rec_stack st = {} \<and>
     set (graph_keys g) \<subseteq> visited st"
proof -
  from find_cycles_loop_correct[OF init_state_ok graph_keys_nodes, of g]
  obtain st where st: "find_cycles_loop g (graph_keys g) init_state = Inr st"
    "dfs_post g init_state st" "set (graph_keys g) \<subseteq> visited st" by blast
  then have "dfs_inv g st" "done_ok g st" "path st = []"
    by (auto simp: dfs_post_def init_state_def)
  moreover from this have "rec_stack st = {}" by (simp add: dfs_inv_def)
  moreover have "find_cycles g = Inr (cycles st)" using st(1) by (simp add: find_cycles_def)
  ultimately show ?thesis using st by blast
qed

lemma visited_final:
  assumes "find_cycles_loop g (graph_keys g) init_state = Inr st"
  shows "visited st = graph_nodes g"
proof -
  from find_cycles_final[of g] assms have inv: "dfs_inv g st" and dn: "done_ok g st"
    and rs: "rec_stack st = {}" and ks: "set (graph_keys g) \<subseteq> visited st" by auto
  have "graph_nodes g \<subseteq> visited st"
  proof
    fix n assume "n \<in> graph_nodes g"
    then consider "n \<in> set (graph_keys g)"
      | k where "k \<in> set (graph_keys g)" "n \<in> set (graph_get g k)"
      by (auto simp: graph_nodes_def)
    then show "n \<in> visited st"
    proof cases
      case 1
      then show ?thesis using ks by auto
    next
      case 2
      then have kv: "k \<in> visited st" using ks by auto
      then show ?thesis using dn rs 2(2) by (auto simp: done_ok_def)
    qed
  qed
  then show ?thesis using inv by (auto simp: dfs_inv_def)
qed

lemma is_chain_edges:
  "is_chain g c = (\<forall>i. Suc i < length c \<longrightarrow> (c ! i, c ! Suc i) \<in> edges g)"
proof (induction g c rule: is_chain.induct)
  case (3 g x y zs)
  show ?case
  proof
    assume a: "is_chain g (x # y # zs)"
    show "\<forall>i. Suc i < length (x # y # zs) \<longrightarrow> ((x # y # zs) ! i, (x # y # zs) ! Suc i) \<in> edges g"
    proof (intro allI impI)
      fix i assume "Suc i < length (x # y # zs)"
      then show "((x # y # zs) ! i, (x # y # zs) ! Suc i) \<in> edges g"
        using a 3 by (cases i) (auto simp: edges_def)
    qed
  next
    assume a: "\<forall>i. Suc i < length (x # y # zs) \<longrightarrow> ((x # y # zs) ! i, (x # y # zs) ! Suc i) \<in> edges g"
    from a[rule_format, of 0] have "y \<in> set (graph_get g x)" by (simp add: edges_def)
    moreover have "\<forall>i. Suc i < length (y # zs) \<longrightarrow> ((y # zs) ! i, (y # zs) ! Suc i) \<in> edges g"
      using a by (metis Suc_less_eq length_Cons nth_Cons_Suc)
    ultimately show "is_chain g (x # y # zs)" using 3 by simp
  qed
qed simp_all

lemma chain_trancl:
  "is_chain g (x # ys) \<Longrightarrow> ys \<noteq> [] \<Longrightarrow> (x, last ys) \<in> (edges g)\<^sup>+"
proof (induction ys arbitrary: x)
  case Nil
  then show ?case by simp
next
  case (Cons y ys)
  then have e: "(x, y) \<in> edges g" by (simp add: edges_def)
  show ?case
  proof (cases ys)
    case Nil
    then show ?thesis using e by auto
  next
    case (Cons z zs)
    with Cons.prems Cons.IH[of y] have "(y, last ys) \<in> (edges g)\<^sup>+" by simp
    with e show ?thesis using Cons by (simp add: trancl_into_trancl2)
  qed
qed

lemma elementary_cycle_trancl:
  assumes "elementary_cycle g c"
  shows "(hd c, hd c) \<in> (edges g)\<^sup>+"
proof -
  from assms obtain x ys where c: "c = x # ys" "ys \<noteq> []" "last ys = x" "is_chain g (x # ys)"
    by (cases c) (auto simp: elementary_cycle_def Suc_le_eq split: if_splits)
  from chain_trancl[OF c(4) c(2)] c(1,3) show ?thesis by simp
qed

text \<open>
  Claim C10. Every cycle returned by \<open>find_cycles\<close> is an elementary cycle of the graph:
  it has the form \<open>[n0, n1, \<dots>, nk, n0]\<close>, each consecutive pair is an edge, and no node
  is repeated other than the closing \<open>n0\<close>. The call itself raises no exception.
\<close>

theorem find_cycles_elementary:
  "\<exists>cs. find_cycles g = Inr cs \<and> list_all (elementary_cycle g) cs"
  using find_cycles_final[of g] by (auto simp: dfs_inv_def)

text \<open>
  Claim C2. For every graph with no directed cycle, \<open>find_cycles\<close> returns the empty
  list.
\<close>

theorem find_cycles_acyclic:
  assumes "acyclic (edges g)"
  shows "find_cycles g = Inr []"
proof -
  from find_cycles_final[of g] obtain st where st: "find_cycles g = Inr (cycles st)"
    "dfs_inv g st" by blast
  have "cycles st = []"
  proof (rule ccontr)
    assume "cycles st \<noteq> []"
    then obtain c where "c \<in> set (cycles st)" by (cases "cycles st") auto
    with st(2) have "elementary_cycle g c" by (auto simp: dfs_inv_def list_all_iff)
    then have "(hd c, hd c) \<in> (edges g)\<^sup>+" by (rule elementary_cycle_trancl)
    with assms show False by (auto simp: acyclic_def)
  qed
  with st(1) show ?thesis by simp
qed

text \<open>
  Claim C8. For every graph with an edge from a node \<open>a\<close> to itself, \<open>find_cycles\<close>
  returns normally and the cycle \<open>[a, a]\<close> is among its results, whatever the rest of the
  graph is.
\<close>

theorem find_cycles_self_loop:
  assumes "(a, a) \<in> edges g"
  shows "\<exists>cs. find_cycles g = Inr cs \<and> [a, a] \<in> set cs"
proof -
  from assms have self: "a \<in> set (graph_get g a)" by (simp add: edges_def)
  from find_cycles_final[of g] obtain st where st: "find_cycles g = Inr (cycles st)"
    "done_ok g st" "rec_stack st = {}" "set (graph_keys g) \<subseteq> visited st" by blast
  from self have "a \<in> graph_nodes g" using graph_get_nodes[of g a] by auto
  have "a \<in> set (graph_keys g)"
  proof (cases "map_of g a")
    case None
    with self show ?thesis by (simp add: graph_get_def)
  next
    case (Some ns)
    then have "(a, ns) \<in> set g" by (rule map_of_SomeD)
    then show ?thesis by (force simp: graph_keys_def)
  qed
  with st(4) have "a \<in> visited st" by auto
  with st(2,3) self have "[a, a] \<in> set (cycles st)" by (simp add: done_ok_def)
  with st(1) show ?thesis by simp
qed

text \<open>The graph of one edge \<open>a \<rightarrow> b\<close> is acyclic, and the search finds nothing in it.\<close>

theorem find_cycles_acyclic_witness:
  "acyclic (edges [(''a'', [''b''])]) \<and> find_cycles [(''a'', [''b''])] = Inr []"
proof -
  have "edges [(''a'', [''b''])] = {(''a'', ''b'')}"
    by (auto simp: edges_def graph_get_def split: if_splits)
  moreover have "acyclic ({} :: (string \<times> string) set)" by (simp add: acyclic_def)
  ultimately have a: "acyclic (edges [(''a'', [''b''])])"
    by simp
  from a find_cycles_acyclic[OF a] show ?thesis by simp
qed

text \<open>
  A graph with the self-loop \<open>a \<rightarrow> a\<close> inside the two-node cycle \<open>b \<rightarrow> a \<rightarrow> b\<close>.
\<close>

theorem find_cycles_self_loop_witness:
  "(''a'', ''a'') \<in> edges [(''b'', [''a'']), (''a'', [''a'', ''b''])] \<and>
   find_cycles [(''b'', [''a'']), (''a'', [''a'', ''b''])] = Inr [[''a'', ''a''], [''b'', ''a'', ''b'']] \<and>
   [''a'', ''a''] \<in> set [[''a'', ''a''], [''b'', ''a'', ''b'']]"
proof -
  have e: "(''a'', ''a'') \<in> edges [(''b'', [''a'']), (''a'', [''a'', ''b''])]"
    by (simp add: edges_def graph_get_def)
  have f: "find_cycles [(''b'', [''a'']), (''a'', [''a'', ''b''])] = Inr [[''a'', ''a''], [''b'', ''a'', ''b'']]"
    by (simp add: find_cycles_def graph_keys_def init_state_def graph_get_def enter_def leave_def
        record_cycle_def dfs.simps)
  from find_cycles_self_loop[OF e] e f show ?thesis by simp
qed

subsection \<open>Termination and the life of a node\<close>

text \<open>
  \<open>dfs\<close> and \<open>dfs_for\<close> are total: their termination proof above is the argument that
  every call on a new node takes one node out of the finite set of unvisited ones. Two
  consequences, now without the domain hypothesis.
\<close>

lemma dfs_visited_mono:
  "dfs g node st = Inr st' \<Longrightarrow> visited st \<subseteq> visited st'"
  "dfs_for g node' ns st2 = Inr st2' \<Longrightarrow> visited st2 \<subseteq> visited st2'"
proof (induction g node st and g node' ns st2 arbitrary: st' and st2' rule: dfs_dfs_for.induct)
  case (1 g node st)
  then show ?case
    by (auto simp: dfs.simps enter_def split: sum.splits dest!: leave_visited)
next
  case (2 g node st)
  then show ?case by simp
next
  case (3 g node neighbor rest st)
  then show ?case
    apply (simp split: if_splits sum.splits)
      apply (blast dest: record_cycle_visited)+
    done
qed

lemma dfs_total:
  "dfs_dfs_for_dom (Inl (g, node, st))"
  "dfs_dfs_for_dom (Inr (g, node', ns, st2))"
  by (induction g node st and g node' ns st2 rule: dfs_dfs_for.induct)
    (auto intro: dfs_dfs_for.domintros)

text \<open>
  The claim about the life of a node speaks of what happens during the run, so the run is
  written down. \<open>dfs_trace\<close> repeats the recursion of \<open>dfs\<close> and \<open>dfs_for\<close> call for call
  (the states it threads are the ones \<open>dfs\<close> and \<open>dfs_for\<close> return) and lists every
  change the run makes to the shared variables, each with the state it leaves behind:
  \<^item> \<open>Enter n\<close>: the three statements at the head of \<open>dfs(n)\<close>;
  \<^item> \<open>Found n\<close>: the body of \<open>elif neighbor in rec_stack\<close>, which appends a cycle;
  \<^item> \<open>Leave n\<close>: \<open>path.pop()\<close> and \<open>rec_stack.remove(n)\<close> at the end of \<open>dfs(n)\<close>.
\<close>

datatype 'a event = Enter 'a | Found 'a | Leave 'a

type_synonym 'a trace = "('a event \<times> 'a dfs_state) list"

function
  dfs_trace :: "'a graph \<Rightarrow> 'a \<Rightarrow> 'a dfs_state \<Rightarrow> 'a trace" and
  dfs_for_trace :: "'a graph \<Rightarrow> 'a \<Rightarrow> 'a list \<Rightarrow> 'a dfs_state \<Rightarrow> 'a trace"
where
  "dfs_trace g node st =
     (Enter node, enter node st) #
     dfs_for_trace g node (graph_get g node) (enter node st) @
     (case dfs_for g node (graph_get g node) (enter node st) of
        Inl e \<Rightarrow> []
      | Inr st' \<Rightarrow> (case leave node st' of Inl e \<Rightarrow> [] | Inr st'' \<Rightarrow> [(Leave node, st'')]))"
| "dfs_for_trace g node [] st = []"
| "dfs_for_trace g node (neighbor # rest) st =
     (if neighbor \<notin> visited st then
        dfs_trace g neighbor st @
        (case dfs g neighbor st of
           Inl e \<Rightarrow> []
         | Inr st' \<Rightarrow> dfs_for_trace g node rest st')
      else if neighbor \<in> rec_stack st then
        (case record_cycle neighbor st of
           Inl e \<Rightarrow> []
         | Inr st' \<Rightarrow> (Found neighbor, st') # dfs_for_trace g node rest st')
      else dfs_for_trace g node rest st)"
  by pat_completeness auto
termination dfs_trace
proof (relation "inv_image (less_than <*lex*> less_than <*lex*> less_than)
    (\<lambda>x. case x of
       Inl (g, node, st) \<Rightarrow> (unvisited g [node] (insert node (visited st)), 1::nat, 0::nat)
     | Inr (g, node, ns, st) \<Rightarrow> (unvisited g ns (visited st), 0, length ns))", goal_cases)
  case 1
  then show ?case by (intro wf_inv_image wf_lex_prod wf_less_than)
next
  case (2 g node st)
  have "unvisited g (graph_get g node) (visited (enter node st))
      \<le> unvisited g [node] (insert node (visited st))"
    using graph_get_nodes[of g node] by (intro unvisited_mono) (auto simp: enter_def)
  then show ?case by auto
next
  case (3 g node neighbor rest st)
  then show ?case using unvisited_less[of neighbor "visited st" g rest] by simp
next
  case (4 g node neighbor rest st st')
  from 4(2) have "visited st \<subseteq> visited st'" by (rule dfs_visited_mono(1))
  then have "unvisited g rest (visited st') \<le> unvisited g (neighbor # rest) (visited st)"
    by (intro unvisited_mono) auto
  then show ?case by auto
next
  case (5 g node neighbor rest st st')
  then have "visited st' = visited st" by (auto dest: record_cycle_visited)
  then have "unvisited g rest (visited st') \<le> unvisited g (neighbor # rest) (visited st)"
    by (intro unvisited_mono) auto
  then show ?case by auto
next
  case (6 g node neighbor rest st)
  have "unvisited g rest (visited st) \<le> unvisited g (neighbor # rest) (visited st)"
    by (intro unvisited_mono) auto
  then show ?case by auto
qed

declare dfs_trace.simps [simp del]

fun find_cycles_loop_trace :: "'a graph \<Rightarrow> 'a list \<Rightarrow> 'a dfs_state \<Rightarrow> 'a trace" where
  "find_cycles_loop_trace g [] st = []"
| "find_cycles_loop_trace g (node # rest) st =
     (if node \<notin> visited st then
        dfs_trace g node st @
        (case dfs g node st of
           Inl e \<Rightarrow> []
         | Inr st' \<Rightarrow> find_cycles_loop_trace g rest st')
      else find_cycles_loop_trace g rest st)"

definition find_cycles_trace :: "'a graph \<Rightarrow> 'a trace" where
  "find_cycles_trace g = find_cycles_loop_trace g (graph_keys g) init_state"

text \<open>
  \<open>run_ok s tr st\<close>: the trace \<open>tr\<close> leads from \<open>s\<close> to \<open>st\<close>, and each of its entries is
  the named statement group of the source applied to the state before it, under the
  guard the source tests before it: a node is entered only when it is not in \<open>visited\<close>,
  and a cycle is recorded only for a node on \<open>rec_stack\<close>.
\<close>

fun step_ok :: "'a event \<Rightarrow> 'a dfs_state \<Rightarrow> 'a dfs_state \<Rightarrow> bool" where
  "step_ok (Enter n) s s' = (n \<notin> visited s \<and> s' = enter n s)"
| "step_ok (Found n) s s' = (n \<in> visited s \<and> n \<in> rec_stack s \<and> record_cycle n s = Inr s')"
| "step_ok (Leave n) s s' = (leave n s = Inr s')"

fun run_ok :: "'a dfs_state \<Rightarrow> 'a trace \<Rightarrow> 'a dfs_state \<Rightarrow> bool" where
  "run_ok s [] st = (s = st)"
| "run_ok s ((ev, s') # r) st = (step_ok ev s s' \<and> run_ok s' r st)"

text \<open>
  The three states of a node, read off the variables of the source: unvisited (not in
  \<open>visited\<close>), active (in \<open>visited\<close> and on \<open>rec_stack\<close>), done (in \<open>visited\<close>, no longer on
  \<open>rec_stack\<close>).
\<close>

datatype status = Unvisited | Active | Done

definition status :: "'a dfs_state \<Rightarrow> 'a \<Rightarrow> status" where
  "status s n = (if n \<notin> visited s then Unvisited else if n \<in> rec_stack s then Active else Done)"

lemma run_ok_append: "run_ok s t1 s1 \<Longrightarrow> run_ok s1 t2 s2 \<Longrightarrow> run_ok s (t1 @ t2) s2"
  by (induction t1 arbitrary: s) auto

lemma dfs_trace_run_ok:
  "node \<notin> visited st \<Longrightarrow> dfs g node st = Inr st' \<Longrightarrow> run_ok st (dfs_trace g node st) st'"
  "dfs_for g node' ns st2 = Inr st2' \<Longrightarrow> run_ok st2 (dfs_for_trace g node' ns st2) st2'"
proof (induction g node st and g node' ns st2 arbitrary: st' and st2' rule: dfs_dfs_for.induct)
  case (1 g node st)
  from 1(3) obtain st1 where st1: "dfs_for g node (graph_get g node) (enter node st) = Inr st1"
    "leave node st1 = Inr st'"
    by (auto simp: dfs.simps split: sum.splits)
  have "run_ok (enter node st) (dfs_for_trace g node (graph_get g node) (enter node st)) st1"
    using st1(1) by (rule 1(1))
  moreover have "run_ok st1 [(Leave node, st')] st'" using st1(2) by simp
  ultimately have "run_ok (enter node st)
      (dfs_for_trace g node (graph_get g node) (enter node st) @ [(Leave node, st')]) st'"
    by (rule run_ok_append)
  then show ?case using 1(2) st1 by (simp add: dfs_trace.simps)
next
  case (2 g node st)
  then show ?case by simp
next
  case (3 g node neighbor rest st)
  show ?case
  proof (cases "neighbor \<notin> visited st")
    case True
    from 3(5) True obtain st1 where st1: "dfs g neighbor st = Inr st1"
      "dfs_for g node rest st1 = Inr st2'"
      by (auto split: sum.splits)
    have "run_ok st (dfs_trace g neighbor st) st1" using True True st1(1) by (rule 3(1))
    moreover have "run_ok st1 (dfs_for_trace g node rest st1) st2'"
      using True st1(1) st1(2) by (rule 3(2))
    ultimately show ?thesis using True st1(1) by (simp add: run_ok_append)
  next
    case False
    then have vis: "neighbor \<in> visited st" by simp
    show ?thesis
    proof (cases "neighbor \<in> rec_stack st")
      case True
      from 3(5) vis True obtain st1 where st1: "record_cycle neighbor st = Inr st1"
        "dfs_for g node rest st1 = Inr st2'"
        by (auto split: sum.splits)
      have "run_ok st1 (dfs_for_trace g node rest st1) st2'"
        using False True st1(1) st1(2) by (rule 3(3))
      then show ?thesis using vis True st1(1) by simp
    next
      case nact: False
      from 3(5) vis nact have r: "dfs_for g node rest st = Inr st2'" by simp
      have "run_ok st (dfs_for_trace g node rest st) st2'" using False nact r by (rule 3(4))
      then show ?thesis using vis nact by simp
    qed
  qed
qed

lemma find_cycles_loop_trace_run_ok:
  "find_cycles_loop g ks st = Inr st' \<Longrightarrow> run_ok st (find_cycles_loop_trace g ks st) st'"
proof (induction ks arbitrary: st)
  case Nil
  then show ?case by simp
next
  case (Cons k ks)
  show ?case
  proof (cases "k \<in> visited st")
    case True
    with Cons show ?thesis by simp
  next
    case False
    from Cons.prems False obtain st1 where st1: "dfs g k st = Inr st1"
      "find_cycles_loop g ks st1 = Inr st'"
      by (auto split: sum.splits)
    have "run_ok st (dfs_trace g k st) st1" using False st1(1) by (rule dfs_trace_run_ok(1))
    moreover have "run_ok st1 (find_cycles_loop_trace g ks st1) st'" using st1(2) by (rule Cons.IH)
    ultimately show ?thesis using False st1(1) by (simp add: run_ok_append)
  qed
qed


text \<open>
  One step never moves a node backwards: a done node stays done, an active one stays
  active or becomes done, an unvisited one stays unvisited or becomes active.
\<close>

lemma step_ok_stack:
  "step_ok ev s s' \<Longrightarrow> rec_stack s \<subseteq> visited s \<Longrightarrow> rec_stack s' \<subseteq> visited s'"
  by (cases ev) (auto simp: enter_def leave_def record_cycle_def split: if_splits sum.splits)

lemma step_ok_Done:
  "step_ok ev s s' \<Longrightarrow> status s n = Done \<Longrightarrow> status s' n = Done"
  by (cases ev)
    (auto simp: status_def enter_def leave_def record_cycle_def split: if_splits sum.splits)

lemma step_ok_Active:
  "step_ok ev s s' \<Longrightarrow> status s n = Active \<Longrightarrow> status s' n = Active \<or> status s' n = Done"
  by (cases ev)
    (auto simp: status_def enter_def leave_def record_cycle_def split: if_splits sum.splits)

lemma step_ok_Unvisited:
  "step_ok ev s s' \<Longrightarrow> rec_stack s \<subseteq> visited s \<Longrightarrow> status s n = Unvisited \<Longrightarrow>
     status s' n = Unvisited \<or> status s' n = Active"
  by (cases ev)
    (auto simp: status_def enter_def leave_def record_cycle_def split: if_splits sum.splits)

lemma run_ok_last: "run_ok s tr st \<Longrightarrow> last (s # map snd tr) = st"
  by (induction tr arbitrary: s) auto

lemma run_Done:
  "run_ok s tr st \<Longrightarrow> status s n = Done \<Longrightarrow>
     map (\<lambda>x. status x n) (map snd tr) = replicate (length tr) Done"
proof (induction tr arbitrary: s)
  case Nil
  then show ?case by simp
next
  case (Cons a tr)
  obtain ev s' where a: "a = (ev, s')" by (cases a)
  from Cons.prems a have st: "step_ok ev s s'" and r: "run_ok s' tr st" by auto
  from st Cons.prems(2) have "status s' n = Done" by (rule step_ok_Done)
  with Cons.IH[OF r] a show ?case by simp
qed

lemma run_Active:
  "run_ok s tr st \<Longrightarrow> status s n = Active \<Longrightarrow>
     \<exists>j k. map (\<lambda>x. status x n) (map snd tr) = replicate j Active @ replicate k Done"
proof (induction tr arbitrary: s)
  case Nil
  then show ?case by simp
next
  case (Cons a tr)
  obtain ev s' where a: "a = (ev, s')" by (cases a)
  from Cons.prems a have st: "step_ok ev s s'" and r: "run_ok s' tr st" by auto
  from step_ok_Active[OF st Cons.prems(2)]
  consider "status s' n = Active" | "status s' n = Done" by blast
  then show ?case
  proof cases
    case 1
    from Cons.IH[OF r 1] obtain j k where
      "map (\<lambda>x. status x n) (map snd tr) = replicate j Active @ replicate k Done" by blast
    then have "map (\<lambda>x. status x n) (map snd (a # tr)) = replicate (Suc j) Active @ replicate k Done"
      using a 1 by simp
    then show ?thesis by blast
  next
    case 2
    from run_Done[OF r 2]
    have "map (\<lambda>x. status x n) (map snd (a # tr)) = replicate 0 Active @ replicate (Suc (length tr)) Done"
      using a 2 by simp
    then show ?thesis by blast
  qed
qed

lemma run_Unvisited:
  "run_ok s tr st \<Longrightarrow> rec_stack s \<subseteq> visited s \<Longrightarrow> status s n = Unvisited \<Longrightarrow>
     \<exists>i j k. map (\<lambda>x. status x n) (map snd tr)
         = replicate i Unvisited @ replicate j Active @ replicate k Done \<and>
       (0 < k \<longrightarrow> 0 < j)"
proof (induction tr arbitrary: s)
  case Nil
  then show ?case by simp
next
  case (Cons a tr)
  obtain ev s' where a: "a = (ev, s')" by (cases a)
  from Cons.prems a have st: "step_ok ev s s'" and r: "run_ok s' tr st" by auto
  from st Cons.prems(2) have inv: "rec_stack s' \<subseteq> visited s'" by (rule step_ok_stack)
  from step_ok_Unvisited[OF st Cons.prems(2,3)]
  consider "status s' n = Unvisited" | "status s' n = Active" by blast
  then show ?case
  proof cases
    case 1
    from Cons.IH[OF r inv 1] obtain i j k where
      "map (\<lambda>x. status x n) (map snd tr)
         = replicate i Unvisited @ replicate j Active @ replicate k Done" "0 < k \<longrightarrow> 0 < j"
      by blast
    then have "map (\<lambda>x. status x n) (map snd (a # tr))
         = replicate (Suc i) Unvisited @ replicate j Active @ replicate k Done \<and> (0 < k \<longrightarrow> 0 < j)"
      using a 1 by simp
    then show ?thesis by blast
  next
    case 2
    from run_Active[OF r 2] obtain j k where
      "map (\<lambda>x. status x n) (map snd tr) = replicate j Active @ replicate k Done" by blast
    then have "map (\<lambda>x. status x n) (map snd (a # tr))
         = replicate 0 Unvisited @ replicate (Suc j) Active @ replicate k Done
           \<and> (0 < k \<longrightarrow> 0 < Suc j)"
      using a 2 by simp
    then show ?thesis by blast
  qed
qed

lemma last_phases:
  "last (replicate (Suc i) Unvisited @ replicate j Active @ replicate k Done) =
     (if 0 < k then Done else if 0 < j then Active else Unvisited)"
  by (cases k; cases j) (simp_all add: last_append)

text \<open>
  Claim C9. \<open>find_cycles\<close> terminates on every graph (a graph is a finite dictionary) and
  returns the cycles of the state \<open>st\<close> its loop ends in. The run from the initial state
  to \<open>st\<close> consists of the source's own statement groups, each under its guard. Along the
  states of that run every node of the graph is first unvisited, then active, then done:
  it changes state exactly twice, in that order, and a done node never becomes active
  again. A node that is not in the graph stays unvisited.
\<close>

theorem find_cycles_terminates:
  "\<exists>st. find_cycles_loop g (graph_keys g) init_state = Inr st \<and>
        find_cycles g = Inr (cycles st) \<and>
        run_ok init_state (find_cycles_trace g) st \<and>
        (\<forall>n. \<exists>i j k.
           map (\<lambda>s. status s n) (init_state # map snd (find_cycles_trace g))
             = replicate (Suc i) Unvisited @ replicate j Active @ replicate k Done \<and>
           (if n \<in> graph_nodes g then 0 < j \<and> 0 < k else j = 0 \<and> k = 0))"
proof -
  from find_cycles_final[of g] obtain st where st:
    "find_cycles_loop g (graph_keys g) init_state = Inr st" "find_cycles g = Inr (cycles st)"
    "rec_stack st = {}"
    by blast
  have v: "visited st = graph_nodes g" using st(1) by (rule visited_final)
  have run: "run_ok init_state (find_cycles_trace g) st"
    unfolding find_cycles_trace_def using st(1) by (rule find_cycles_loop_trace_run_ok)
  have "\<exists>i j k.
           map (\<lambda>s. status s n) (init_state # map snd (find_cycles_trace g))
             = replicate (Suc i) Unvisited @ replicate j Active @ replicate k Done \<and>
           (if n \<in> graph_nodes g then 0 < j \<and> 0 < k else j = 0 \<and> k = 0)" for n
  proof -
    have u: "status init_state n = Unvisited" by (simp add: status_def init_state_def)
    have "rec_stack (init_state :: 'a dfs_state) \<subseteq> visited init_state"
      by (simp add: init_state_def)
    from run_Unvisited[OF run this u] obtain i j k where ph:
      "map (\<lambda>x. status x n) (map snd (find_cycles_trace g))
         = replicate i Unvisited @ replicate j Active @ replicate k Done" "0 < k \<longrightarrow> 0 < j"
      by blast
    define L where "L = map (\<lambda>s. status s n) (init_state # map snd (find_cycles_trace g))"
    have eq: "L = replicate (Suc i) Unvisited @ replicate j Active @ replicate k Done"
      unfolding L_def using ph(1) u by simp
    have "last L = status (last (init_state # map snd (find_cycles_trace g))) n"
      unfolding L_def by (rule last_map) simp
    also have "last (init_state # map snd (find_cycles_trace g)) = st"
      using run by (rule run_ok_last)
    finally have l1: "last L = status st n" .
    have l2: "status st n = (if n \<in> graph_nodes g then Done else Unvisited)"
      using v st(3) by (simp add: status_def)
    have l3: "last L = (if 0 < k then Done else if 0 < j then Active else Unvisited)"
      unfolding eq by (rule last_phases)
    from l1 l2 l3 have "(if 0 < k then Done else if 0 < j then Active else Unvisited)
        = (if n \<in> graph_nodes g then Done else Unvisited)"
      by (simp only:)
    with ph(2) have "if n \<in> graph_nodes g then 0 < j \<and> 0 < k else j = 0 \<and> k = 0"
      by (auto split: if_splits)
    with eq show ?thesis unfolding L_def by blast
  qed
  with st(1,2) run show ?thesis by blast
qed


text \<open>The run on the two-node cycle \<open>a \<rightarrow> b \<rightarrow> a\<close>, and the states of \<open>a\<close> and \<open>b\<close> along it.\<close>

lemma find_cycles_trace_two_cycle:
  "map fst (find_cycles_trace [(''a'', [''b'']), (''b'', [''a''])])
     = [Enter ''a'', Enter ''b'', Found ''a'', Leave ''b'', Leave ''a'']"
  "map (\<lambda>s. status s ''a'') (init_state # map snd (find_cycles_trace [(''a'', [''b'']), (''b'', [''a''])]))
     = [Unvisited, Active, Active, Active, Active, Done]"
  "map (\<lambda>s. status s ''b'') (init_state # map snd (find_cycles_trace [(''a'', [''b'']), (''b'', [''a''])]))
     = [Unvisited, Unvisited, Active, Active, Done, Done]"
  by (simp_all add: find_cycles_trace_def graph_keys_def init_state_def graph_get_def enter_def
      leave_def record_cycle_def dfs.simps dfs_trace.simps status_def)

theorem find_cycles_terminates_witness:
  "find_cycles [(''a'', [''b'']), (''b'', [''a''])] = Inr [[''a'', ''b'', ''a'']] \<and>
   (\<exists>i j k. map (\<lambda>s. status s ''a'')
        (init_state # map snd (find_cycles_trace [(''a'', [''b'']), (''b'', [''a''])]))
      = replicate (Suc i) Unvisited @ replicate j Active @ replicate k Done \<and> 0 < j \<and> 0 < k)"
proof -
  let ?g = "[(''a'', [''b'']), (''b'', [''a''])]"
  from find_cycles_terminates[of ?g] have
    ph: "\<forall>n. \<exists>i j k.
           map (\<lambda>s. status s n) (init_state # map snd (find_cycles_trace ?g))
             = replicate (Suc i) Unvisited @ replicate j Active @ replicate k Done \<and>
           (if n \<in> graph_nodes ?g then 0 < j \<and> 0 < k else j = 0 \<and> k = 0)"
    by blast
  have "''a'' \<in> graph_nodes ?g" by (simp add: graph_nodes_def graph_keys_def)
  with ph[rule_format, of "''a''"] have "\<exists>i j k. map (\<lambda>s. status s ''a'')
        (init_state # map snd (find_cycles_trace ?g))
      = replicate (Suc i) Unvisited @ replicate j Active @ replicate k Done \<and> 0 < j \<and> 0 < k"
    by (simp only: if_True)
  moreover have "find_cycles ?g = Inr [[''a'', ''b'', ''a'']]"
    by (simp add: find_cycles_def graph_keys_def init_state_def graph_get_def enter_def
      leave_def record_cycle_def dfs.simps)
  ultimately show ?thesis by blast
qed

subsection \<open>The deduplication loop of main\<close>

text \<open>
  \<open>min(xs, key=str)\<close>: the first least element, ValueError on the empty list. A path is
  compared through its string, which is the order of the node type here (for
  \<open>string\<close>, the lexicographic order on character codes, as Python's).
\<close>

fun py_min :: "'a::linorder list \<Rightarrow> py_error + 'a" where
  "py_min [] = Inl ValueError"
| "py_min (x # xs) = Inr (foldl (\<lambda>m y. if y < m then y else m) x xs)"

text \<open>
  The two lines that compute \<open>normalized\<close>: \<open>cycle[:-1]\<close> is \<open>butlast cycle\<close>,
  \<open>cycle[min_idx:-1]\<close> is \<open>drop min_idx (butlast cycle)\<close>, \<open>cycle[:min_idx]\<close> is
  \<open>take min_idx cycle\<close>; the tuple is modelled as a list.
\<close>

definition normalize_cycle :: "'a::linorder list \<Rightarrow> py_error + 'a list" where
  "normalize_cycle cycle =
     (case py_min (butlast cycle) of
        Inl e \<Rightarrow> Inl e
      | Inr m \<Rightarrow>
          (case index_of cycle m of
             Inl e \<Rightarrow> Inl e
           | Inr min_idx \<Rightarrow>
               if min_idx < length cycle
               then Inr (drop min_idx (butlast cycle) @ take min_idx cycle @ [cycle ! min_idx])
               else Inl IndexError))"

text \<open>
  The loop \<open>for cycle in cycles\<close> with its two accumulators \<open>seen\<close> and
  \<open>unique_cycles\<close>: a cycle is kept, as found, when its normal form is new.
\<close>

fun dedup_loop ::
  "'a::linorder list list \<Rightarrow> 'a list set \<Rightarrow> 'a list list \<Rightarrow> py_error + 'a list list" where
  "dedup_loop [] seen unique_cycles = Inr unique_cycles"
| "dedup_loop (cycle # rest) seen unique_cycles =
     (case normalize_cycle cycle of
        Inl e \<Rightarrow> Inl e
      | Inr normalized \<Rightarrow>
          if normalized \<notin> seen
          then dedup_loop rest (insert normalized seen) (unique_cycles @ [cycle])
          else dedup_loop rest seen unique_cycles)"

definition deduplicate :: "'a::linorder list list \<Rightarrow> py_error + 'a list list" where
  "deduplicate cs = dedup_loop cs {} []"



text \<open>On a list of at least two entries, as every cycle of \<open>find_cycles\<close> is, nothing is raised.\<close>

lemma foldl_min_mem: "foldl (\<lambda>m y. if y < m then y else m) x xs \<in> set (x # xs)"
  by (induction xs arbitrary: x) auto

lemma py_min_mem: "py_min xs = Inr m \<Longrightarrow> m \<in> set xs"
  using foldl_min_mem by (cases xs) auto

lemma normalize_cycle_ok:
  assumes "2 \<le> length c"
  shows "\<exists>n. normalize_cycle c = Inr n"
proof -
  from assms have "butlast c \<noteq> []" by (cases c rule: rev_cases) auto
  then obtain m where m: "py_min (butlast c) = Inr m" by (cases "butlast c") auto
  then have "m \<in> set (butlast c)" by (rule py_min_mem)
  then have "m \<in> set c" by (rule in_set_butlastD)
  then obtain i where "index_of c m = Inr i" "i < length c" using index_of_mem by fastforce
  with m show ?thesis by (simp add: normalize_cycle_def)
qed

lemma deduplicate_single: "2 \<le> length c \<Longrightarrow> deduplicate [c] = Inr [c]"
  using normalize_cycle_ok[of c] by (auto simp: deduplicate_def)


text \<open>
  The normal form of a closed elementary cycle is its rotation that starts at the least
  node, so all rotations of a cycle have the same normal form.
\<close>

lemma Min_insert_min:
  assumes "finite S"
  shows "Min (insert (min x y) S) = Min (insert x (insert y S))"
proof (cases "S = {}")
  case True
  then show ?thesis by simp
next
  case False
  then show ?thesis using assms by (simp add: min.assoc)
qed

lemma foldl_min_Min: "foldl (\<lambda>m y. if y < m then y else m) x xs = Min (insert x (set xs))"
proof (induction xs arbitrary: x)
  case Nil
  then show ?case by simp
next
  case (Cons y ys)
  have "(if y < x then y else x) = min x y" by (auto simp: min_def)
  then have "foldl (\<lambda>m y. if y < m then y else m) x (y # ys) = Min (insert (min x y) (set ys))"
    using Cons[of "min x y"] by simp
  also have "\<dots> = Min (insert x (insert y (set ys)))" by (rule Min_insert_min) simp
  finally show ?case by simp
qed

lemma py_min_Min: "xs \<noteq> [] \<Longrightarrow> py_min xs = Inr (Min (set xs))"
  by (cases xs) (simp_all add: foldl_min_Min)

lemma index_of_append: "x \<in> set xs \<Longrightarrow> index_of (xs @ ys) x = index_of xs x"
  by (induction xs) auto

lemma normalize_cycle_closed:
  assumes "distinct p" "p \<noteq> []"
  shows "\<exists>i<length p. p ! i = Min (set p) \<and>
           normalize_cycle (p @ [hd p]) = Inr (rotate i p @ [Min (set p)])"
proof -
  let ?m = "Min (set p)"
  have mem: "?m \<in> set p" using assms(2) by simp
  then obtain i where i: "index_of p ?m = Inr i" "i < length p" "p ! i = ?m"
    using index_of_mem by fastforce
  have "index_of (p @ [hd p]) ?m = Inr i" using mem i(1) by (simp add: index_of_append)
  moreover have "py_min (butlast (p @ [hd p])) = Inr ?m" using assms(2) by (simp add: py_min_Min)
  moreover have "rotate i p = drop i p @ take i p" using i(2) by (simp add: rotate_drop_take)
  ultimately have "normalize_cycle (p @ [hd p]) = Inr (rotate i p @ [?m])"
    using i(2,3) by (simp add: normalize_cycle_def nth_append)
  with i(2,3) show ?thesis by blast
qed

lemma normalize_cycle_rotate:
  assumes "distinct p" "p \<noteq> []"
  shows "normalize_cycle (rotate k p @ [hd (rotate k p)]) = normalize_cycle (p @ [hd p])"
proof -
  let ?q = "rotate k p"
  let ?m = "Min (set p)"
  from normalize_cycle_closed[OF assms] obtain i where i: "i < length p" "p ! i = ?m"
    "normalize_cycle (p @ [hd p]) = Inr (rotate i p @ [?m])" by blast
  have q: "distinct ?q" "?q \<noteq> []" using assms by simp_all
  from normalize_cycle_closed[OF q] obtain j where j: "j < length p" "?q ! j = ?m"
    "normalize_cycle (?q @ [hd ?q]) = Inr (rotate j ?q @ [?m])" by auto
  have "?q ! j = p ! ((k + j) mod length p)" using j(1) by (simp add: nth_rotate)
  with j(2) i(2) have "p ! ((k + j) mod length p) = p ! i" by simp
  moreover have "(k + j) mod length p < length p" using assms(2) by simp
  ultimately have "(k + j) mod length p = i"
    using assms(1) i(1) by (simp add: nth_eq_iff_index_eq)
  then have "rotate j ?q = rotate i p"
    by (metis rotate_conv_mod rotate_rotate add.commute)
  with i(3) j(3) show ?thesis by simp
qed

lemma deduplicate_rotation:
  assumes "distinct p" "p \<noteq> []"
  shows "deduplicate [p @ [hd p], rotate k p @ [hd (rotate k p)]] = Inr [p @ [hd p]]"
proof -
  from normalize_cycle_closed[OF assms] obtain n where "normalize_cycle (p @ [hd p]) = Inr n"
    by blast
  then show ?thesis
    using normalize_cycle_rotate[OF assms, of k] by (simp add: deduplicate_def)
qed


lemma three_entries:
  assumes d: "distinct (map fst g)" and s: "set g = {e1, e2, e3}"
    and ne: "e1 \<noteq> e2" "e1 \<noteq> e3" "e2 \<noteq> e3"
  shows "g \<in> {[e1, e2, e3], [e1, e3, e2], [e2, e1, e3], [e2, e3, e1], [e3, e1, e2], [e3, e2, e1]}"
proof -
  from d have dg: "distinct g" by (simp add: distinct_map)
  then have "length g = card (set g)" by (simp add: distinct_card)
  also have "\<dots> = 3" using s ne by simp
  finally have "length g = 3" .
  then obtain x y z where g: "g = [x, y, z]"
    by (cases g; cases "tl g"; cases "tl (tl g)") auto
  have "x \<in> {e1, e2, e3}" "y \<in> {e1, e2, e3}" "z \<in> {e1, e2, e3}"
    using s g by auto
  moreover have "x \<noteq> y" "x \<noteq> z" "y \<noteq> z" using dg g by auto
  moreover have "e1 \<in> {x, y, z}" "e2 \<in> {x, y, z}" "e3 \<in> {x, y, z}" using s g by auto
  ultimately show ?thesis unfolding g using ne by auto
qed

lemmas eval_find_cycles = find_cycles_def graph_keys_def init_state_def graph_get_def enter_def
  leave_def record_cycle_def dfs.simps

lemma find_cycles_triangle:
  assumes "a \<noteq> b" "a \<noteq> c" "b \<noteq> c"
  shows "find_cycles [(a, [b]), (b, [c]), (c, [a])] = Inr [[a, b, c, a]]"
    "find_cycles [(a, [b]), (c, [a]), (b, [c])] = Inr [[a, b, c, a]]"
  using assms by (simp_all add: eval_find_cycles)

text \<open>
  Claim C1. For a graph whose entries are exactly \<open>a \<rightarrow> b\<close>, \<open>b \<rightarrow> c\<close>, \<open>c \<rightarrow> a\<close> (three
  different nodes), in any order of the keys and so for any node the search starts from,
  \<open>find_cycles\<close> followed by the deduplication returns exactly one cycle, a rotation of
  \<open>[a, b, c, a]\<close>; and raw cycles that are rotations of one another are deduplicated to
  the first of them.
\<close>

theorem three_cycle_found_once:
  assumes "distinct [a, b, c]" "distinct (map fst g)" "set g = {(a, [b]), (b, [c]), (c, [a])}"
  shows "(\<exists>cs u. find_cycles g = Inr cs \<and> deduplicate cs = Inr [u] \<and>
            (u = [a, b, c, a] \<or> u = [b, c, a, b] \<or> u = [c, a, b, c])) \<and>
         deduplicate [[a, b, c, a], [b, c, a, b]] = Inr [[a, b, c, a]] \<and>
         deduplicate [[a, b, c, a], [c, a, b, c]] = Inr [[a, b, c, a]]"
proof -
  from assms(1) have ne: "a \<noteq> b" "a \<noteq> c" "b \<noteq> c" by auto
  have d: "deduplicate [[x, y, z, x]] = Inr [[x, y, z, x]]" for x y z :: 'a
    by (rule deduplicate_single) simp
  from three_entries[OF assms(2,3)] ne
  consider "g = [(a, [b]), (b, [c]), (c, [a])]" | "g = [(a, [b]), (c, [a]), (b, [c])]"
    | "g = [(b, [c]), (a, [b]), (c, [a])]" | "g = [(b, [c]), (c, [a]), (a, [b])]"
    | "g = [(c, [a]), (a, [b]), (b, [c])]" | "g = [(c, [a]), (b, [c]), (a, [b])]"
    by auto
  then have one: "\<exists>cs u. find_cycles g = Inr cs \<and> deduplicate cs = Inr [u] \<and>
      (u = [a, b, c, a] \<or> u = [b, c, a, b] \<or> u = [c, a, b, c])"
  proof cases
    case 1
    then show ?thesis using find_cycles_triangle(1)[of a b c] ne d by auto
  next
    case 2
    then show ?thesis using find_cycles_triangle(2)[of a b c] ne d by auto
  next
    case 3
    then show ?thesis using find_cycles_triangle(2)[of b c a] ne d by auto
  next
    case 4
    then show ?thesis using find_cycles_triangle(1)[of b c a] ne d by auto
  next
    case 5
    then show ?thesis using find_cycles_triangle(1)[of c a b] ne d by auto
  next
    case 6
    then show ?thesis using find_cycles_triangle(2)[of c a b] ne d by auto
  qed
  have p: "distinct [a, b, c]" "[a, b, c] \<noteq> []" using assms(1) by simp_all
  have r1: "deduplicate [[a, b, c, a], [b, c, a, b]] = Inr [[a, b, c, a]]"
    using deduplicate_rotation[OF p, of 1] by (simp add: rotate1_def)
  have r2: "deduplicate [[a, b, c, a], [c, a, b, c]] = Inr [[a, b, c, a]]"
    using deduplicate_rotation[OF p, of 2] by (simp add: rotate1_def numeral_2_eq_2)
  from one r1 r2 show ?thesis by blast
qed

text \<open>The search starting at \<open>b\<close>.\<close>

theorem three_cycle_found_once_witness:
  "distinct [''a'', ''b'', ''c''] \<and>
   distinct (map fst [(''b'', [''c'']), (''c'', [''a'']), (''a'', [''b''])]) \<and>
   set [(''b'', [''c'']), (''c'', [''a'']), (''a'', [''b''])] =
     {(''a'', [''b'']), (''b'', [''c'']), (''c'', [''a''])} \<and>
   find_cycles [(''b'', [''c'']), (''c'', [''a'']), (''a'', [''b''])] = Inr [[''b'', ''c'', ''a'', ''b'']] \<and>
   deduplicate [[''b'', ''c'', ''a'', ''b'']] = Inr [[''b'', ''c'', ''a'', ''b'']] \<and>
   deduplicate [[''a'', ''b'', ''c'', ''a''], [''b'', ''c'', ''a'', ''b'']] = Inr [[''a'', ''b'', ''c'', ''a'']]"
proof -
  have h1: "distinct [''a'', ''b'', ''c'']" by simp
  have h2: "distinct (map fst [(''b'', [''c'']), (''c'', [''a'']), (''a'', [''b''])])" by simp
  have h3: "set [(''b'', [''c'']), (''c'', [''a'']), (''a'', [''b''])] =
      {(''a'', [''b'']), (''b'', [''c'']), (''c'', [''a''])}" by auto
  have f: "find_cycles [(''b'', [''c'']), (''c'', [''a'']), (''a'', [''b''])] = Inr [[''b'', ''c'', ''a'', ''b'']]"
    by (simp add: eval_find_cycles)
  have d: "deduplicate [[''b'', ''c'', ''a'', ''b'']] = Inr [[''b'', ''c'', ''a'', ''b'']]"
    by (simp add: deduplicate_def normalize_cycle_def)
  from three_cycle_found_once[OF h1 h2 h3] h1 h2 h3 f d show ?thesis by simp
qed

subsection \<open>Regular expressions\<close>

text \<open>
  \<open>extract_imports\<close> finds imports with \<open>re.finditer\<close>. The six patterns of the script use
  a small fragment of the \<open>re\<close> language, and this section gives that fragment a matcher:
  one character class, repeated greedily (\<open>*\<close>, \<open>+\<close>) or lazily (\<open>*?\<close>), the anchor \<open>^\<close>
  under \<open>re.MULTILINE\<close>, and one capturing group.

  A character of the text is its code point; the model has the code points below 256.
  \<open>\s\<close> and \<open>\w\<close> are the classes that \<open>re\<close> uses for a \<open>str\<close> pattern on those code points,
  and \<open>.\<close> is every character but the newline.
\<close>

definition newline :: char where "newline = CHR 0x0A"
definition squote :: char where "squote = CHR 0x27"
definition dquote :: char where "dquote = CHR 0x22"

datatype charset =
    Chr char
  | Whitespace
  | WordChar
  | AnyChar
  | Among "charset list"
  | NotAmong "charset list"

definition is_space :: "char \<Rightarrow> bool" where
  "is_space c =
     (let n = (of_char c :: nat)
      in (9 \<le> n \<and> n \<le> 13) \<or> (28 \<le> n \<and> n \<le> 32) \<or> n = 133 \<or> n = 160)"

definition is_word :: "char \<Rightarrow> bool" where
  "is_word c =
     (let n = (of_char c :: nat)
      in (48 \<le> n \<and> n \<le> 57) \<or> (65 \<le> n \<and> n \<le> 90) \<or> n = 95 \<or> (97 \<le> n \<and> n \<le> 122) \<or>
         n = 170 \<or> n = 178 \<or> n = 179 \<or> n = 181 \<or> n = 185 \<or> n = 186 \<or>
         (188 \<le> n \<and> n \<le> 190) \<or> (192 \<le> n \<and> n \<le> 214) \<or> (216 \<le> n \<and> n \<le> 246) \<or>
         248 \<le> n)"

fun in_charset :: "charset \<Rightarrow> char \<Rightarrow> bool" where
  "in_charset (Chr a) c = (c = a)"
| "in_charset Whitespace c = is_space c"
| "in_charset WordChar c = is_word c"
| "in_charset AnyChar c = (c \<noteq> newline)"
| "in_charset (Among cs) c = list_ex (\<lambda>s. in_charset s c) cs"
| "in_charset (NotAmong cs) c = (\<not> list_ex (\<lambda>s. in_charset s c) cs)"

text \<open>
  A pattern is a sequence of items. \<open>GroupOpen\<close> and \<open>GroupClose\<close> are the parentheses of
  group 1.
\<close>

datatype item =
    One charset
  | Star charset
  | Plus charset
  | LazyStar charset
  | BeginLine
  | GroupOpen
  | GroupClose

type_synonym pattern = "item list"

text \<open>
  \<open>match_here p prev s capt acc\<close> matches \<open>p\<close> at the start of \<open>s\<close>, where \<open>prev\<close> is the
  character before \<open>s\<close> in the whole text (none at its start). It is the backtracking
  search of \<open>re\<close>: a greedy repetition tries one more character first and gives it back
  when the rest fails, a lazy one tries the rest first. The result is the text of group 1
  and what is left of \<open>s\<close> after the match. \<open>capt\<close> says that group 1 is open and \<open>acc\<close>
  holds its characters so far, last first.
\<close>

fun match_here ::
  "pattern \<Rightarrow> char option \<Rightarrow> string \<Rightarrow> bool \<Rightarrow> string \<Rightarrow> (string \<times> string) option" where
  "match_here [] prev s capt acc = Some (rev acc, s)"
| "match_here (BeginLine # r) prev s capt acc =
     (if prev = None \<or> prev = Some newline then match_here r prev s capt acc else None)"
| "match_here (GroupOpen # r) prev s capt acc = match_here r prev s True []"
| "match_here (GroupClose # r) prev s capt acc = match_here r prev s False acc"
| "match_here (One c # r) prev [] capt acc = None"
| "match_here (One c # r) prev (x # xs) capt acc =
     (if in_charset c x then match_here r (Some x) xs capt (if capt then x # acc else acc)
      else None)"
| "match_here (Plus c # r) prev [] capt acc = None"
| "match_here (Plus c # r) prev (x # xs) capt acc =
     (if in_charset c x
      then match_here (Star c # r) (Some x) xs capt (if capt then x # acc else acc)
      else None)"
| "match_here (Star c # r) prev [] capt acc = match_here r prev [] capt acc"
| "match_here (Star c # r) prev (x # xs) capt acc =
     (if in_charset c x then
        (case match_here (Star c # r) (Some x) xs capt (if capt then x # acc else acc) of
           Some res \<Rightarrow> Some res
         | None \<Rightarrow> match_here r prev (x # xs) capt acc)
      else match_here r prev (x # xs) capt acc)"
| "match_here (LazyStar c # r) prev [] capt acc = match_here r prev [] capt acc"
| "match_here (LazyStar c # r) prev (x # xs) capt acc =
     (case match_here r prev (x # xs) capt acc of
        Some res \<Rightarrow> Some res
      | None \<Rightarrow>
          if in_charset c x
          then match_here (LazyStar c # r) (Some x) xs capt (if capt then x # acc else acc)
          else None)"

text \<open>
  \<open>re.finditer\<close>: the matches from left to right, none overlapping another. Each is given
  as the position where it starts and the text of its group 1. After a match the search
  goes on where the match ended; where there is none it moves one character on. (None of
  the six patterns matches the empty string; for one that does, the search here moves one
  character on as well.)
\<close>

fun finditer_from :: "pattern \<Rightarrow> char option \<Rightarrow> string \<Rightarrow> nat \<Rightarrow> (nat \<times> string) list" where
  "finditer_from p prev s pos =
     (case match_here p prev s False [] of
        Some (g, rest) \<Rightarrow>
          (pos, g) #
          (if length rest < length s
           then finditer_from p (Some (s ! (length s - length rest - 1))) rest
                  (pos + (length s - length rest))
           else (case s of [] \<Rightarrow> [] | x # xs \<Rightarrow> finditer_from p (Some x) xs (pos + 1)))
      | None \<Rightarrow> (case s of [] \<Rightarrow> [] | x # xs \<Rightarrow> finditer_from p (Some x) xs (pos + 1)))"

declare finditer_from.simps [simp del]

definition finditer :: "pattern \<Rightarrow> string \<Rightarrow> (nat \<times> string) list" where
  "finditer p content = finditer_from p None content 0"

text \<open>
  The table \<open>IMPORT_PATTERNS\<close>. \<open>lit\<close> is a literal word, \<open>quote\<close> is \<open>['"]\<close>, \<open>target\<close> is
  \<open>([^'"]+)\<close> and \<open>dotted_name\<close> is \<open>([\w.]+)\<close>. \<open>IMPORT_PATTERNS.get(lang, [])\<close> gives the
  empty list for a language the table does not have.
\<close>

definition lit :: "string \<Rightarrow> pattern" where
  "lit s = map (\<lambda>c. One (Chr c)) s"

definition quote :: item where
  "quote = One (Among [Chr squote, Chr dquote])"

definition target :: pattern where
  "target = [GroupOpen, Plus (NotAmong [Chr squote, Chr dquote]), GroupClose]"

definition dotted_name :: pattern where
  "dotted_name = [GroupOpen, Plus (Among [WordChar, Chr CHR ''.'']), GroupClose]"

definition ts_patterns :: "pattern list" where
  "ts_patterns =
     [lit ''import'' @ [Plus Whitespace, LazyStar AnyChar, Plus Whitespace] @ lit ''from'' @
        [Plus Whitespace, quote] @ target @ [quote],
      lit ''import'' @ [Star Whitespace, One (Chr CHR ''(''), quote] @ target @
        [quote, One (Chr CHR '')'')],
      lit ''require'' @ [Star Whitespace, One (Chr CHR ''(''), quote] @ target @
        [quote, One (Chr CHR '')'')],
      lit ''export'' @ [Plus Whitespace, LazyStar AnyChar, Plus Whitespace] @ lit ''from'' @
        [Plus Whitespace, quote] @ target @ [quote]]"

definition py_patterns :: "pattern list" where
  "py_patterns =
     [[BeginLine] @ lit ''from'' @ [Plus Whitespace] @ dotted_name @ [Plus Whitespace] @
        lit ''import'',
      [BeginLine] @ lit ''import'' @ [Plus Whitespace] @ dotted_name]"

definition IMPORT_PATTERNS :: "string \<Rightarrow> pattern list" where
  "IMPORT_PATTERNS lang =
     (if lang = ''ts'' then ts_patterns
      else if lang = ''js'' then ts_patterns
      else if lang = ''py'' then py_patterns
      else [])"

lemmas eval_regex = finditer_def finditer_from.simps ts_patterns_def py_patterns_def lit_def
  quote_def target_def dotted_name_def squote_def dquote_def newline_def is_space_def is_word_def
  IMPORT_PATTERNS_def



subsection \<open>The file system\<close>

text \<open>
  The script reaches the files through \<open>pathlib\<close>. The operations of \<open>Path\<close> that it calls
  are the fields of a record, so that a theorem about any \<open>fs\<close> holds for whatever
  project lies on disk; \<open>'p\<close> is the type of paths. \<open>joinpath\<close> is the operator \<open>/\<close>,
  \<open>str\<close> is \<open>str(p)\<close> and \<open>Path\<close> is the constructor. \<open>read_text\<close> is
  \<open>read_text(encoding="utf-8", errors="ignore")\<close>: the decoded text, or the exception
  raised when the file cannot be read. The other operations are taken to return.
\<close>

record 'p file_system =
  read_text :: "'p \<Rightarrow> py_error + string"
  rglob :: "'p \<Rightarrow> string \<Rightarrow> 'p list"
  parts :: "'p \<Rightarrow> string list"
  suffix :: "'p \<Rightarrow> string"
  parent :: "'p \<Rightarrow> 'p"
  joinpath :: "'p \<Rightarrow> string \<Rightarrow> 'p"
  resolve :: "'p \<Rightarrow> 'p"
  str :: "'p \<Rightarrow> string"
  Path :: "string \<Rightarrow> 'p"
  exists :: "'p \<Rightarrow> bool"
  is_file :: "'p \<Rightarrow> bool"

subsection \<open>extract\_imports\<close>

text \<open>
  The two nested loops, each with the list \<open>imports\<close> it appends to, and the function. The
  \<open>try\<close> block starts with the read; \<open>except Exception: pass\<close> leads to
  \<open>return imports\<close> with the list as it is then.
\<close>

fun match_loop :: "(nat \<times> string) list \<Rightarrow> string list \<Rightarrow> string list" where
  "match_loop [] imports = imports"
| "match_loop (m # ms) imports =
     (let import_path = snd m in match_loop ms (imports @ [import_path]))"

fun pattern_loop :: "pattern list \<Rightarrow> string \<Rightarrow> string list \<Rightarrow> string list" where
  "pattern_loop [] content imports = imports"
| "pattern_loop (p # ps) content imports =
     pattern_loop ps content (match_loop (finditer p content) imports)"

definition extract_imports :: "'p file_system \<Rightarrow> 'p \<Rightarrow> string \<Rightarrow> py_error + string list" where
  "extract_imports fs file_path lang =
     (let imports = [];
          patterns = IMPORT_PATTERNS lang
      in case read_text fs file_path of
           Inl e \<Rightarrow> Inr imports
         | Inr content \<Rightarrow> Inr (pattern_loop patterns content imports))"

lemma match_loop_eq: "match_loop ms acc = acc @ map snd ms"
  by (induction ms arbitrary: acc) simp_all

lemma pattern_loop_eq:
  "pattern_loop ps content acc = acc @ concat (map (\<lambda>p. map snd (finditer p content)) ps)"
  by (induction ps arbitrary: acc) (simp_all add: match_loop_eq)

text \<open>
  Claim C6. \<open>extract_imports\<close> returns normally on every file and every language tag, and
  when reading the file raises an exception it returns the empty list.
\<close>

theorem extract_imports_never_raises:
  "(\<exists>found. extract_imports fs file_path lang = Inr found) \<and>
   (\<forall>e. read_text fs file_path = Inl e \<longrightarrow> extract_imports fs file_path lang = Inr [])"
  by (simp add: extract_imports_def split: sum.splits)

text \<open>
  A file with a \<open>require\<close> on its first line and an \<open>import \<dots> from\<close> on its second, in a
  directory where no other file can be read.
\<close>

definition mixed_text :: string where
  "mixed_text =
     ''const a = require('' @ [squote] @ ''./a'' @ [squote] @ '')'' @ [newline] @
     ''import b from '' @ [squote] @ ''./b'' @ [squote] @ [newline]"

definition mixed_file :: "string file_system" where
  "mixed_file =
     \<lparr>read_text = (\<lambda>p. if p = ''/p/a.ts'' then Inr mixed_text else Inl OSError),
      rglob = (\<lambda>root pat. if root = ''/p'' \<and> pat = ''*.ts'' then [''/p/a.ts''] else []),
      parts = (\<lambda>p. if p = ''/p/a.ts'' then [''/'', ''p'', ''a.ts''] else []),
      suffix = (\<lambda>p. if p = ''/p/a.ts'' then ''.ts'' else []),
      parent = (\<lambda>p. ''/p''),
      joinpath = (\<lambda>p s. p @ ''/'' @ (if take 2 s = ''./'' then drop 2 s else s)),
      resolve = (\<lambda>p. p),
      str = (\<lambda>p. p),
      Path = (\<lambda>s. s),
      exists = (\<lambda>p. p = ''/p'' \<or> p = ''/p/a.ts''),
      is_file = (\<lambda>p. p = ''/p/a.ts'')\<rparr>"

theorem extract_imports_never_raises_witness:
  "read_text mixed_file ''/p/gone.ts'' = Inl OSError \<and>
   extract_imports mixed_file ''/p/gone.ts'' ''ts'' = Inr []"
proof -
  have r: "read_text mixed_file ''/p/gone.ts'' = Inl OSError"
    by (simp add: mixed_file_def)
  with extract_imports_never_raises[of mixed_file "''/p/gone.ts''" "''ts''"] show ?thesis
    by blast
qed








subsection \<open>resolve\_import\<close>

text \<open>
  \<open>import_path.startswith(pre)\<close>, the list that the \<open>for ext in [\<dots>]\<close> loop runs over, the
  loop with its early \<open>return\<close>, and the function. \<open>import_path[2:]\<close> is \<open>drop 2\<close>.
\<close>

definition startswith :: "string \<Rightarrow> string \<Rightarrow> bool" where
  "startswith s pre = (take (length pre) s = pre)"

definition extension_candidates :: "string list" where
  "extension_candidates =
     ['''', ''.ts'', ''.tsx'', ''.js'', ''.jsx'', ''/index.ts'', ''/index.tsx'', ''/index.js'']"

fun candidate_loop :: "'p file_system \<Rightarrow> 'p \<Rightarrow> string list \<Rightarrow> 'p option" where
  "candidate_loop fs resolved [] = None"
| "candidate_loop fs resolved (ext # exts) =
     (let candidate = Path fs (str fs resolved @ ext)
      in if exists fs candidate \<and> is_file fs candidate then Some candidate
         else candidate_loop fs resolved exts)"

definition resolve_import :: "'p file_system \<Rightarrow> string \<Rightarrow> 'p \<Rightarrow> 'p \<Rightarrow> 'p option" where
  "resolve_import fs import_path from_file project_root =
     (if \<not> startswith import_path ''.'' \<and> \<not> startswith import_path ''@/'' then None
      else
        let from_dir = parent fs from_file
        in if startswith import_path ''.'' then
             candidate_loop fs (resolve fs (joinpath fs from_dir import_path))
               extension_candidates
           else if startswith import_path ''@/'' then
             candidate_loop fs
               (resolve fs (joinpath fs (joinpath fs project_root ''src'') (drop 2 import_path)))
               extension_candidates
           else None)"

lemma candidate_loop_find:
  "candidate_loop fs resolved exts
     = List.find (\<lambda>c. exists fs c \<and> is_file fs c)
         (map (\<lambda>ext. Path fs (str fs resolved @ ext)) exts)"
  by (induction exts) (simp_all add: Let_def)

lemma resolve_import_external:
  "\<not> startswith import_path ''.'' \<Longrightarrow> \<not> startswith import_path ''@/'' \<Longrightarrow>
     resolve_import fs import_path from_file project_root = None"
  by (simp add: resolve_import_def)

lemma resolve_import_Some_internal:
  "resolve_import fs import_path from_file project_root = Some r \<Longrightarrow>
     startswith import_path ''.'' \<or> startswith import_path ''@/''"
  by (rule ccontr) (simp add: resolve_import_def)

text \<open>
  Claim C4. For a relative import (one that starts with a dot) or an aliased one (one that
  starts with \<open>@/\<close>), \<open>resolve_import\<close> computes the base path, makes from it the eight
  candidates of the list below, in that order (the base itself, then the four source
  extensions, then the three index files of a directory), and returns the first candidate
  that exists and is a regular file; it returns \<open>None\<close> when there is none
  (\<open>List.find\<close> is the first element of a list with a property, if any).
\<close>

theorem resolve_import_first_candidate:
  assumes "startswith import_path ''.'' \<or> startswith import_path ''@/''"
  shows
    "resolve_import fs import_path from_file project_root =
       (let resolved =
              (if startswith import_path ''.''
               then resolve fs (joinpath fs (parent fs from_file) import_path)
               else resolve fs (joinpath fs (joinpath fs project_root ''src'') (drop 2 import_path)));
            candidates = map (\<lambda>ext. Path fs (str fs resolved @ ext))
              ['''', ''.ts'', ''.tsx'', ''.js'', ''.jsx'', ''/index.ts'', ''/index.tsx'', ''/index.js'']
        in List.find (\<lambda>c. exists fs c \<and> is_file fs c) candidates)"
proof (cases "startswith import_path ''.''")
  case True
  then show ?thesis
    by (simp only: resolve_import_def candidate_loop_find extension_candidates_def Let_def
        if_True if_False simp_thms)
next
  case False
  with assms have "startswith import_path ''@/''" by simp
  with False show ?thesis
    by (simp only: resolve_import_def candidate_loop_find extension_candidates_def Let_def
        if_True if_False simp_thms)
qed

text \<open>
  A project where \<open>src/a.ts\<close> imports \<open>./utils\<close>: \<open>src/utils\<close> is a directory with an
  \<open>index.ts\<close>, and beside it lies \<open>src/utils.js\<close>. The directory exists but is no regular
  file, \<open>utils.ts\<close> and \<open>utils.tsx\<close> do not exist, so the result is \<open>utils.js\<close>, which comes
  before \<open>utils/index.ts\<close> in the list.
\<close>

definition utils_project :: "string file_system" where
  "utils_project =
     \<lparr>read_text = (\<lambda>p. Inl OSError),
      rglob = (\<lambda>root pat. []),
      parts = (\<lambda>p. []),
      suffix = (\<lambda>p. []),
      parent = (\<lambda>p. if p = ''/p/src/a.ts'' then ''/p/src'' else ''/p''),
      joinpath = (\<lambda>p s. p @ ''/'' @ (if take 2 s = ''./'' then drop 2 s else s)),
      resolve = (\<lambda>p. p),
      str = (\<lambda>p. p),
      Path = (\<lambda>s. s),
      exists = (\<lambda>p. p \<in> {''/p'', ''/p/src'', ''/p/src/a.ts'', ''/p/src/utils'',
                          ''/p/src/utils.js'', ''/p/src/utils/index.ts''}),
      is_file = (\<lambda>p. p \<in> {''/p/src/a.ts'', ''/p/src/utils.js'', ''/p/src/utils/index.ts''})\<rparr>"

theorem resolve_import_first_candidate_witness:
  "startswith ''./utils'' ''.'' \<and>
   resolve_import utils_project ''./utils'' ''/p/src/a.ts'' ''/p'' = Some ''/p/src/utils.js''"
proof -
  have a: "startswith ''./utils'' ''.''" by (simp add: startswith_def)
  then have "startswith ''./utils'' ''.'' \<or> startswith ''./utils'' ''@/''" by simp
  from resolve_import_first_candidate[OF this, of utils_project "''/p/src/a.ts''" "''/p''"] a
  show ?thesis by (simp add: utils_project_def)
qed

subsection \<open>build\_dependency\_graph\<close>

text \<open>
  \<open>graph\<close> is a \<open>defaultdict(set)\<close>. The only statement that touches it is
  \<open>graph[file_path].add(resolved)\<close>: it makes \<open>file_path\<close> a key, after the keys there are,
  when it is none yet, and adds \<open>resolved\<close> to its set. (The set is listed in the order of
  the additions; what \<open>find_cycles\<close> is proved to do above does not depend on that order.)
\<close>

fun graph_add :: "'a graph \<Rightarrow> 'a \<Rightarrow> 'a \<Rightarrow> 'a graph" where
  "graph_add [] k v = [(k, [v])]"
| "graph_add ((k', ns) # g) k v =
     (if k' = k then (k', if v \<in> set ns then ns else ns @ [v]) # g
      else (k', ns) # graph_add g k v)"

text \<open>
  \<open>find_files\<close>, the directory names that exclude a file, \<open>lang_map\<close>, the body of the loop
  over the imports of a file, that loop, the loop over the files, and the function.
\<close>

definition find_files :: "'p file_system \<Rightarrow> 'p \<Rightarrow> string list \<Rightarrow> 'p list" where
  "find_files fs root extensions = concat (map (\<lambda>ext. rglob fs root (''*.'' @ ext)) extensions)"

definition excluded_dirs :: "string list" where
  "excluded_dirs = [''node_modules'', ''__pycache__'', ''.git'', ''dist'', ''build'']"

definition lang_map :: "string \<Rightarrow> string option" where
  "lang_map = map_of [(''ts'', ''ts''), (''tsx'', ''ts''), (''js'', ''js''), (''jsx'', ''js''),
                      (''py'', ''py'')]"

definition add_import :: "'p file_system \<Rightarrow> 'p \<Rightarrow> 'p \<Rightarrow> string \<Rightarrow> 'p graph \<Rightarrow> 'p graph" where
  "add_import fs root file_path imp graph =
     (case resolve_import fs imp file_path root of
        None \<Rightarrow> graph
      | Some resolved \<Rightarrow> graph_add graph file_path resolved)"

fun import_loop :: "'p file_system \<Rightarrow> 'p \<Rightarrow> 'p \<Rightarrow> string list \<Rightarrow> 'p graph \<Rightarrow> 'p graph" where
  "import_loop fs root file_path [] graph = graph"
| "import_loop fs root file_path (imp # imps) graph =
     import_loop fs root file_path imps (add_import fs root file_path imp graph)"

fun file_loop :: "'p file_system \<Rightarrow> 'p \<Rightarrow> 'p list \<Rightarrow> 'p graph \<Rightarrow> py_error + 'p graph" where
  "file_loop fs root [] graph = Inr graph"
| "file_loop fs root (file_path # rest) graph =
     (if list_ex (\<lambda>p. p \<in> set (parts fs file_path)) excluded_dirs
      then file_loop fs root rest graph
      else
        let ext = drop 1 (suffix fs file_path);
            lang = (case lang_map ext of None \<Rightarrow> ''js'' | Some l \<Rightarrow> l)
        in case extract_imports fs file_path lang of
             Inl e \<Rightarrow> Inl e
           | Inr imports \<Rightarrow>
               file_loop fs root rest (import_loop fs root file_path imports graph))"

definition build_dependency_graph ::
  "'p file_system \<Rightarrow> 'p \<Rightarrow> string list \<Rightarrow> py_error + 'p graph" where
  "build_dependency_graph fs root extensions =
     file_loop fs root (find_files fs root extensions) []"

lemmas eval_builder = build_dependency_graph_def find_files_def excluded_dirs_def lang_map_def
  extract_imports_def add_import_def resolve_import_def startswith_def extension_candidates_def

text \<open>What one addition does to the sets and to the keys.\<close>

lemma graph_get_add:
  "graph_get (graph_add g k v) k' =
     (if k' = k then (if v \<in> set (graph_get g k) then graph_get g k else graph_get g k @ [v])
      else graph_get g k')"
  by (induction g) (auto simp: graph_get_def)

lemma graph_keys_add: "set (graph_keys (graph_add g k v)) = insert k (set (graph_keys g))"
proof (induction g)
  case Nil
  then show ?case by (simp add: graph_keys_def)
next
  case (Cons a g)
  obtain k' ns where a: "a = (k', ns)" by (cases a)
  from Cons show ?case unfolding a graph_keys_def by (cases "k' = k") auto
qed

text \<open>
  The files that the loop does not skip, the language and the imports of a file, and the
  imports of a file that resolve.
\<close>

definition eligible :: "'p file_system \<Rightarrow> 'p \<Rightarrow> bool" where
  "eligible fs file_path = (\<not> list_ex (\<lambda>p. p \<in> set (parts fs file_path)) excluded_dirs)"

definition scanned :: "'p file_system \<Rightarrow> 'p \<Rightarrow> string list \<Rightarrow> 'p list" where
  "scanned fs root extensions = filter (eligible fs) (find_files fs root extensions)"

definition lang_of :: "'p file_system \<Rightarrow> 'p \<Rightarrow> string" where
  "lang_of fs file_path =
     (case lang_map (drop 1 (suffix fs file_path)) of None \<Rightarrow> ''js'' | Some l \<Rightarrow> l)"

definition imports_of :: "'p file_system \<Rightarrow> 'p \<Rightarrow> string list" where
  "imports_of fs file_path =
     (case read_text fs file_path of
        Inl e \<Rightarrow> []
      | Inr content \<Rightarrow>
          concat (map (\<lambda>p. map snd (finditer p content)) (IMPORT_PATTERNS (lang_of fs file_path))))"

definition resolved_of :: "'p file_system \<Rightarrow> 'p \<Rightarrow> 'p \<Rightarrow> string list \<Rightarrow> 'p list" where
  "resolved_of fs root file_path imps =
     List.map_filter (\<lambda>imp. resolve_import fs imp file_path root) imps"

lemma extract_imports_eq:
  "extract_imports fs file_path (lang_of fs file_path) = Inr (imports_of fs file_path)"
  by (simp add: extract_imports_def imports_of_def pattern_loop_eq split: sum.splits)

lemma resolved_of_Cons:
  "resolved_of fs root f (imp # imps) =
     (case resolve_import fs imp f root of None \<Rightarrow> resolved_of fs root f imps
      | Some r \<Rightarrow> r # resolved_of fs root f imps)"
  by (simp add: resolved_of_def split: option.splits)

lemma resolved_of_mem:
  "b \<in> set (resolved_of fs root f imps)
     \<longleftrightarrow> (\<exists>imp \<in> set imps. resolve_import fs imp f root = Some b)"
proof (induction imps)
  case Nil
  then show ?case by (simp add: resolved_of_def)
next
  case (Cons a imps)
  then show ?case by (auto simp: resolved_of_Cons split: option.splits)
qed

lemma import_loop_append:
  "import_loop fs root f (xs @ ys) g = import_loop fs root f ys (import_loop fs root f xs g)"
  by (induction xs arbitrary: g) simp_all

lemma import_loop_get:
  "set (graph_get (import_loop fs root f imps g) k)
     = set (graph_get g k) \<union> (if k = f then set (resolved_of fs root f imps) else {})"
proof (induction imps arbitrary: g)
  case Nil
  then show ?case by (simp add: resolved_of_def)
next
  case (Cons imp imps)
  show ?case
    by (cases "resolve_import fs imp f root")
      (auto simp: Cons.IH add_import_def resolved_of_Cons graph_get_add)
qed

lemma import_loop_keys:
  "set (graph_keys (import_loop fs root f imps g))
     = set (graph_keys g) \<union> (if resolved_of fs root f imps = [] then {} else {f})"
proof (induction imps arbitrary: g)
  case Nil
  then show ?case by (simp add: resolved_of_def)
next
  case (Cons imp imps)
  show ?case
    by (cases "resolve_import fs imp f root")
      (auto simp: Cons.IH add_import_def resolved_of_Cons graph_keys_add)
qed

text \<open>
  What the builder returns: it never raises; the set of a key holds the resolved imports
  of that file; and a file is a key exactly when it was scanned and one of its imports
  resolves.
\<close>

lemma file_loop_correct:
  "\<exists>g'. file_loop fs root files g = Inr g' \<and>
     (\<forall>k. set (graph_get g' k) = set (graph_get g k) \<union>
            (if k \<in> set files \<and> eligible fs k then set (resolved_of fs root k (imports_of fs k))
             else {})) \<and>
     set (graph_keys g') = set (graph_keys g) \<union>
       {f \<in> set files. eligible fs f \<and> resolved_of fs root f (imports_of fs f) \<noteq> []}"
proof (induction files arbitrary: g)
  case Nil
  then show ?case by simp
next
  case (Cons f files)
  show ?case
  proof (cases "eligible fs f")
    case False
    from Cons.IH[of g] obtain g' where g': "file_loop fs root files g = Inr g'"
      "\<forall>k. set (graph_get g' k) = set (graph_get g k) \<union>
            (if k \<in> set files \<and> eligible fs k then set (resolved_of fs root k (imports_of fs k))
             else {})"
      "set (graph_keys g') = set (graph_keys g) \<union>
       {f \<in> set files. eligible fs f \<and> resolved_of fs root f (imports_of fs f) \<noteq> []}"
      by blast
    have "file_loop fs root (f # files) g = Inr g'"
      using False g'(1) by (simp add: eligible_def)
    moreover have "\<forall>k. set (graph_get g' k) = set (graph_get g k) \<union>
            (if k \<in> set (f # files) \<and> eligible fs k
             then set (resolved_of fs root k (imports_of fs k)) else {})"
      using g'(2) False by auto
    moreover have "set (graph_keys g') = set (graph_keys g) \<union>
       {x \<in> set (f # files). eligible fs x \<and> resolved_of fs root x (imports_of fs x) \<noteq> []}"
      using g'(3) False by auto
    ultimately show ?thesis by blast
  next
    case True
    let ?g1 = "import_loop fs root f (imports_of fs f) g"
    from Cons.IH[of ?g1] obtain g' where g': "file_loop fs root files ?g1 = Inr g'"
      "\<forall>k. set (graph_get g' k) = set (graph_get ?g1 k) \<union>
            (if k \<in> set files \<and> eligible fs k then set (resolved_of fs root k (imports_of fs k))
             else {})"
      "set (graph_keys g') = set (graph_keys ?g1) \<union>
       {f \<in> set files. eligible fs f \<and> resolved_of fs root f (imports_of fs f) \<noteq> []}"
      by blast
    have "file_loop fs root (f # files) g = Inr g'"
      using True g'(1) extract_imports_eq[of fs f]
      by (simp add: eligible_def lang_of_def Let_def)
    moreover have "\<forall>k. set (graph_get g' k) = set (graph_get g k) \<union>
            (if k \<in> set (f # files) \<and> eligible fs k
             then set (resolved_of fs root k (imports_of fs k)) else {})"
      using g'(2) True by (auto simp: import_loop_get)
    moreover have "set (graph_keys g') = set (graph_keys g) \<union>
       {x \<in> set (f # files). eligible fs x \<and> resolved_of fs root x (imports_of fs x) \<noteq> []}"
      using g'(3) True by (auto simp: import_loop_keys)
    ultimately show ?thesis by blast
  qed
qed

lemma build_dependency_graph_correct:
  "\<exists>g. build_dependency_graph fs root extensions = Inr g \<and>
     (\<forall>k. set (graph_get g k) =
            (if k \<in> set (scanned fs root extensions)
             then set (resolved_of fs root k (imports_of fs k)) else {})) \<and>
     set (graph_keys g) =
       {f \<in> set (scanned fs root extensions). resolved_of fs root f (imports_of fs f) \<noteq> []}"
proof -
  from file_loop_correct[of fs root "find_files fs root extensions" "[]"]
  show ?thesis
    unfolding build_dependency_graph_def scanned_def
    by (auto simp: graph_get_def graph_keys_def)
qed

text \<open>
  A project of two files: \<open>a.ts\<close> imports \<open>./b\<close> and the package \<open>react\<close>, and \<open>b.ts\<close>
  imports nothing.
\<close>

definition two_file_project :: "string file_system" where
  "two_file_project =
     \<lparr>read_text = (\<lambda>p.
        if p = ''/p/a.ts'' then
          Inr (''import { b } from '' @ [squote] @ ''./b'' @ [squote] @ [newline] @
               ''import React from '' @ [squote] @ ''react'' @ [squote] @ [newline])
        else if p = ''/p/b.ts'' then Inr (''export const b = 1'' @ [newline])
        else Inl OSError),
      rglob = (\<lambda>root pat. if root = ''/p'' \<and> pat = ''*.ts'' then [''/p/a.ts'', ''/p/b.ts''] else []),
      parts = (\<lambda>p. if p = ''/p/a.ts'' then [''/'', ''p'', ''a.ts'']
                     else if p = ''/p/b.ts'' then [''/'', ''p'', ''b.ts''] else []),
      suffix = (\<lambda>p. if p = ''/p/a.ts'' \<or> p = ''/p/b.ts'' then ''.ts'' else ''''),
      parent = (\<lambda>p. ''/p''),
      joinpath = (\<lambda>p s. p @ ''/'' @ (if take 2 s = ''./'' then drop 2 s else s)),
      resolve = (\<lambda>p. p),
      str = (\<lambda>p. p),
      Path = (\<lambda>s. s),
      exists = (\<lambda>p. p = ''/p'' \<or> p = ''/p/a.ts'' \<or> p = ''/p/b.ts''),
      is_file = (\<lambda>p. p = ''/p/a.ts'' \<or> p = ''/p/b.ts'')\<rparr>"

lemma build_two_file_project:
  "build_dependency_graph two_file_project ''/p'' [''ts'']
     = Inr [(''/p/a.ts'', [''/p/b.ts''])]"
  by (simp add: eval_builder eval_regex two_file_project_def Let_def)

text \<open>
  Claim C3. For an import that starts neither with a dot nor with \<open>@/\<close>,
  \<open>resolve_import\<close> returns \<open>None\<close>; the body of the builder's loop leaves the graph as it
  is for that import, so the graph that the loop over a file's imports builds is the one
  it builds without that import; and every edge \<open>a \<rightarrow> b\<close> of the graph that
  \<open>build_dependency_graph\<close> returns is there for a relative or aliased import of \<open>a\<close> that
  resolves to \<open>b\<close>.
\<close>

theorem external_import_ignored:
  assumes "\<not> startswith import_path ''.''" and "\<not> startswith import_path ''@/''"
  shows "resolve_import fs import_path from_file project_root = None \<and>
         add_import fs root file_path import_path graph = graph \<and>
         import_loop fs root file_path (before @ import_path # after) graph
           = import_loop fs root file_path (before @ after) graph \<and>
         (\<forall>g a b. build_dependency_graph fs root extensions = Inr g \<and> b \<in> set (graph_get g a) \<longrightarrow>
            (\<exists>imp. imp \<in> set (imports_of fs a) \<and>
               (startswith imp ''.'' \<or> startswith imp ''@/'') \<and>
               resolve_import fs imp a root = Some b))"
proof -
  have n: "resolve_import fs import_path f r = None" for f r
    using assms by (rule resolve_import_external)
  then have "add_import fs root file_path import_path g = g" for g
    by (simp add: add_import_def)
  then have 1: "import_loop fs root file_path (before @ import_path # after) graph
           = import_loop fs root file_path (before @ after) graph"
    and 2: "add_import fs root file_path import_path graph = graph"
    by (simp_all add: import_loop_append)
  have 3: "\<exists>imp. imp \<in> set (imports_of fs a) \<and>
               (startswith imp ''.'' \<or> startswith imp ''@/'') \<and>
               resolve_import fs imp a root = Some b"
    if g: "build_dependency_graph fs root extensions = Inr g" and b: "b \<in> set (graph_get g a)"
    for g a b
  proof -
    from build_dependency_graph_correct[of fs root extensions] g
    have "set (graph_get g a) =
            (if a \<in> set (scanned fs root extensions)
             then set (resolved_of fs root a (imports_of fs a)) else {})"
      by auto
    with b have "b \<in> set (resolved_of fs root a (imports_of fs a))"
      by (auto split: if_splits)
    then obtain imp where imp: "imp \<in> set (imports_of fs a)" "resolve_import fs imp a root = Some b"
      by (auto simp: resolved_of_mem)
    from imp(2) have "startswith imp ''.'' \<or> startswith imp ''@/''"
      by (rule resolve_import_Some_internal)
    with imp show ?thesis by blast
  qed
  from n 1 2 3 show ?thesis by blast
qed

theorem external_import_ignored_witness:
  "\<not> startswith ''react'' ''.'' \<and> \<not> startswith ''react'' ''@/'' \<and>
   resolve_import two_file_project ''react'' ''/p/a.ts'' ''/p'' = None \<and>
   import_loop two_file_project ''/p'' ''/p/a.ts'' [''./b'', ''react''] []
     = [(''/p/a.ts'', [''/p/b.ts''])] \<and>
   build_dependency_graph two_file_project ''/p'' [''ts'']
     = Inr [(''/p/a.ts'', [''/p/b.ts''])]"
proof -
  have a: "\<not> startswith ''react'' ''.''" "\<not> startswith ''react'' ''@/''"
    by (simp_all add: startswith_def)
  have "import_loop two_file_project ''/p'' ''/p/a.ts'' [''./b''] []
     = [(''/p/a.ts'', [''/p/b.ts''])]"
    by (simp add: eval_builder two_file_project_def)
  with external_import_ignored[OF a, where fs = two_file_project and from_file = "''/p/a.ts''"
      and project_root = "''/p''" and root = "''/p''" and file_path = "''/p/a.ts''"
      and graph = "[]" and before = "[''./b'']" and after = "[]"] a build_two_file_project
  show ?thesis by simp
qed



end
